theory Spec2Isabelle
  imports Complex_Main "HOL-Library.Word" "HOL-Library.Signed_Division"
begin

unbundle bit_operations_syntax

section \<open>The Netpbm codec (PBM.go in two variants, PGM.go)\<close>

text \<open>
  The repository holds three Go files of package main: a bitmap reader with boolean pixels
  and its methods (\<open>ReadPBM\<close>, \<open>Save\<close>, \<open>Invert\<close>, \<open>Flip\<close>, \<open>Flop\<close>, ...), an
  earlier variant of \<open>ReadPBM\<close> that keeps pixels as \<open>int\<close>, and the greyscale reader
  \<open>ReadPGM\<close> with its methods.

  Go strings and file contents are byte sequences: \<open>string\<close> (a \<open>char\<close> is one byte).
  A \<open>byte\<close> or \<open>uint8\<close> value is an \<open>8 word\<close>. A Go \<open>int\<close> is modelled as \<open>int\<close>; the
  platform is a 64-bit one, so \<open>strconv.Atoi\<close> delivers values of 64 bits, and the slices
  the readers allocate bound every product and sum the code computes (see \<open>make_data\<close>).

  A call of the readers ends in one of three ways: it returns a value, it returns an
  \<open>error\<close>, or the Go runtime aborts it with a panic.
\<close>

type_synonym byte = "8 word"

datatype error =
    ErrNotExist            \<comment> \<open>os.Open: no such file\<close>
  | ErrPermission          \<comment> \<open>os.Open, os.Create: the path cannot be opened\<close>
  | UnsupportedFileType    \<comment> \<open>errors.New("unsupported file type")\<close>
  | InvalidDimensions      \<comment> \<open>errors.New("invalid image dimensions")\<close>
  | InvalidMaxValue        \<comment> \<open>errors.New("valeur maximale invalide")\<close>
  | ErrSyntax              \<comment> \<open>strconv.ErrSyntax, in a *strconv.NumError\<close>
  | ErrRange               \<comment> \<open>strconv.ErrRange, in a *strconv.NumError\<close>
  | EOF                    \<comment> \<open>io.EOF\<close>
  | ErrNoProgress          \<comment> \<open>io.ErrNoProgress\<close>
  | ErrTooLong             \<comment> \<open>bufio.ErrTooLong: "bufio.Scanner: token too long"\<close>
  | ErrNoSpace             \<comment> \<open>file.Write: ENOSPC or EFBIG, in a *fs.PathError\<close>

datatype runtime_panic =
    IndexOutOfRange int nat   \<comment> \<open>index out of range [i] with length n\<close>
  | MakesliceLenOutOfRange    \<comment> \<open>makeslice: len out of range\<close>
  | OutOfMemory               \<comment> \<open>fatal error: out of memory\<close>

datatype 'a result = Ok 'a | Err error | Panic runtime_panic

subsection \<open>Package strings\<close>

text \<open>
  \<open>strings.TrimSpace\<close> and \<open>strings.Fields\<close> cut at white space as \<open>unicode.IsSpace\<close>
  defines it, on the UTF-8 decoding of the string. \<open>spaceWidth s\<close> is the number of bytes
  of the white-space rune that \<open>s\<close> starts with, and 0 when it starts with none: the six
  ASCII spaces, U+0085 and U+00A0 (two bytes), U+1680, U+2000 to U+200A, U+2028, U+2029,
  U+202F, U+205F and U+3000 (three bytes). Each of these encodings starts with a byte
  that is no continuation byte, so the decoder meets it wherever it stands.
\<close>

definition asciiSpace :: "char \<Rightarrow> bool" where
  "asciiSpace c = (c = CHR 0x09 \<or> c = CHR 0x0A \<or> c = CHR 0x0B \<or> c = CHR 0x0C \<or> c = CHR 0x0D \<or> c = CHR 0x20)"

fun spaceWidth :: "string \<Rightarrow> nat" where
  "spaceWidth [] = 0"
| "spaceWidth (c # cs) =
     (if asciiSpace c then 1
      else if c = CHR 0xC2 then
        (case cs of d # _ \<Rightarrow> if d = CHR 0x85 \<or> d = CHR 0xA0 then 2 else 0 | [] \<Rightarrow> 0)
      else if c = CHR 0xE1 then (if take 2 cs = [CHR 0x9A, CHR 0x80] then 3 else 0)
      else if c = CHR 0xE2 then
        (case cs of
           d # e # _ \<Rightarrow>
             if d = CHR 0x80 \<and> ((128::nat) \<le> of_char e \<and> (of_char e :: nat) \<le> 138
                                \<or> e = CHR 0xA8 \<or> e = CHR 0xA9 \<or> e = CHR 0xAF) then 3
             else if d = CHR 0x81 \<and> e = CHR 0x9F then 3 else 0
         | _ \<Rightarrow> 0)
      else if c = CHR 0xE3 then (if take 2 cs = [CHR 0x80, CHR 0x80] then 3 else 0)
      else 0)"

text \<open>
  The same rune read from the end of the string, as \<open>utf8.DecodeLastRuneInString\<close> finds
  it: the argument is the string reversed.
\<close>

fun spaceWidthLast :: "string \<Rightarrow> nat" where
  "spaceWidthLast [] = 0"
| "spaceWidthLast (c # cs) =
     (if asciiSpace c then 1
      else if (c = CHR 0x85 \<or> c = CHR 0xA0) \<and> take 1 cs = [CHR 0xC2] then 2
      else if c = CHR 0x80 \<and> take 2 cs = [CHR 0x9A, CHR 0xE1] then 3
      else if ((128::nat) \<le> of_char c \<and> (of_char c :: nat) \<le> 138 \<or> c = CHR 0xA8 \<or> c = CHR 0xA9
                \<or> c = CHR 0xAF) \<and> take 2 cs = [CHR 0x80, CHR 0xE2] then 3
      else if c = CHR 0x9F \<and> take 2 cs = [CHR 0x81, CHR 0xE2] then 3
      else if c = CHR 0x80 \<and> take 2 cs = [CHR 0x80, CHR 0xE3] then 3
      else 0)"

lemma spaceWidth_le: "spaceWidth s \<le> length s"
proof (cases s)
  case Nil
  then show ?thesis by simp
next
  case s: (Cons c cs)
  show ?thesis
  proof (cases cs)
    case Nil
    with s show ?thesis by simp
  next
    case cs: (Cons d ds)
    show ?thesis
    proof (cases ds)
      case Nil
      with s cs show ?thesis by simp
    next
      case (Cons e es)
      with s cs show ?thesis by simp
    qed
  qed
qed

lemma spaceWidthLast_le: "spaceWidthLast s \<le> length s"
proof (cases s)
  case Nil
  then show ?thesis by simp
next
  case s: (Cons c cs)
  show ?thesis
  proof (cases cs)
    case Nil
    with s show ?thesis by simp
  next
    case cs: (Cons d ds)
    show ?thesis
    proof (cases ds)
      case Nil
      with s cs show ?thesis by simp
    next
      case (Cons e es)
      with s cs show ?thesis by simp
    qed
  qed
qed

declare spaceWidth.simps [simp del] spaceWidthLast.simps [simp del]

function TrimLeft :: "string \<Rightarrow> string" where
  "TrimLeft s = (if spaceWidth s = 0 then s else TrimLeft (drop (spaceWidth s) s))"
  by pat_completeness auto
termination
proof (relation "measure length")
  fix s :: string
  assume "spaceWidth s \<noteq> 0"
  moreover have "spaceWidth s \<le> length s" by (rule spaceWidth_le)
  ultimately show "(drop (spaceWidth s) s, s) \<in> measure length" by simp
qed simp

function TrimLast :: "string \<Rightarrow> string" where
  "TrimLast s = (if spaceWidthLast s = 0 then s else TrimLast (drop (spaceWidthLast s) s))"
  by pat_completeness auto
termination
proof (relation "measure length")
  fix s :: string
  assume "spaceWidthLast s \<noteq> 0"
  moreover have "spaceWidthLast s \<le> length s" by (rule spaceWidthLast_le)
  ultimately show "(drop (spaceWidthLast s) s, s) \<in> measure length" by simp
qed simp

declare TrimLeft.simps [simp del] TrimLast.simps [simp del]

definition TrimSpace :: "string \<Rightarrow> string" where
  "TrimSpace s = rev (TrimLast (rev (TrimLeft s)))"

text \<open>\<open>strings.Fields\<close>: the maximal runs of bytes between white-space runes; \<open>cur\<close> is the
  field being collected.\<close>

function FieldsFrom :: "string \<Rightarrow> string \<Rightarrow> string list" where
  "FieldsFrom cur [] = (if cur = [] then [] else [cur])"
| "FieldsFrom cur (c # cs) =
     (if spaceWidth (c # cs) = 0 then FieldsFrom (cur @ [c]) cs
      else (if cur = [] then [] else [cur]) @ FieldsFrom [] (drop (spaceWidth (c # cs) - 1) cs))"
  by pat_completeness auto
termination
  by (relation "measure (\<lambda>(cur, s). length s)") auto

definition Fields :: "string \<Rightarrow> string list" where
  "Fields s = FieldsFrom [] s"

definition HasPrefix :: "string \<Rightarrow> string \<Rightarrow> bool" where
  "HasPrefix s prefix = (take (length prefix) s = prefix)"

subsection \<open>Package strconv and the verb %d of package fmt\<close>

text \<open>
  \<open>strconv.Atoi\<close> returns a value and an error. On a string that is no decimal integer
  the value is 0 (\<open>ErrSyntax\<close>); on one that does not fit 64 bits it is the nearest
  64-bit integer (\<open>ErrRange\<close>). The digits are read from the left, and the overflow of
  \<open>uint64\<close> is met before a later byte that is no digit. (For strings shorter than 19
  bytes Atoi has a loop of its own with the same result.)
\<close>

definition isDigit :: "char \<Rightarrow> bool" where
  "isDigit c = ((48::nat) \<le> of_char c \<and> (of_char c :: nat) \<le> 57)"

definition digitVal :: "char \<Rightarrow> nat" where
  "digitVal c = of_char c - 48"

fun ParseUint :: "nat \<Rightarrow> string \<Rightarrow> error + nat" where
  "ParseUint n [] = Inr n"
| "ParseUint n (c # cs) =
     (if \<not> isDigit c then Inl ErrSyntax
      else if 2 ^ 64 \<le> n * 10 + digitVal c then Inl ErrRange
      else ParseUint (n * 10 + digitVal c) cs)"

definition Atoi :: "string \<Rightarrow> int \<times> error option" where
  "Atoi s =
     (case s of
        [] \<Rightarrow> (0, Some ErrSyntax)
      | c # cs \<Rightarrow>
          let neg = (c = CHR ''-'');
              ds = (if c = CHR ''+'' \<or> c = CHR ''-'' then cs else s)
          in if ds = [] then (0, Some ErrSyntax)
             else (case ParseUint 0 ds of
                     Inl e \<Rightarrow>
                       if e = ErrRange then (if neg then - (2 ^ 63) else 2 ^ 63 - 1, Some ErrRange)
                       else (0, Some ErrSyntax)
                   | Inr un \<Rightarrow>
                       if \<not> neg \<and> 2 ^ 63 \<le> un then (2 ^ 63 - 1, Some ErrRange)
                       else if neg \<and> 2 ^ 63 < un then (- (2 ^ 63), Some ErrRange)
                       else (if neg then - int un else int un, None)))"

definition digitChar :: "nat \<Rightarrow> char" where
  "digitChar d = ''0123456789'' ! d"

function FormatUint :: "nat \<Rightarrow> string" where
  "FormatUint n = (if n < 10 then [digitChar n] else FormatUint (n div 10) @ [digitChar (n mod 10)])"
  by pat_completeness auto
termination
  by (relation "measure id") auto

declare FormatUint.simps [simp del]

definition FormatInt :: "int \<Rightarrow> string" where
  "FormatInt i = (if i < 0 then CHR ''-'' # FormatUint (nat (- i)) else FormatUint (nat i))"

subsection \<open>Files, and package bufio\<close>

text \<open>
  A file system maps a path to what is there. \<open>os.Open\<close> gives the file at offset 0;
  an open file is modelled by the bytes from its offset on. \<open>file.Read(p)\<close> on a regular
  file fills \<open>p\<close> with the next bytes of the file and returns their number, the least of
  \<open>len p\<close>, the bytes left and \<open>maxRW\<close>, the 1 GiB that package \<open>internal/poll\<close> passes to
  one \<open>read\<close> at most; with no byte left it returns \<open>0, io.EOF\<close>; an empty \<open>p\<close> reads
  nothing.
\<close>

datatype entry = Absent | Denied | File string

type_synonym filesystem = "string \<Rightarrow> entry"

definition os_Open :: "filesystem \<Rightarrow> string \<Rightarrow> error + string" where
  "os_Open fs name = (case fs name of Absent \<Rightarrow> Inl ErrNotExist | Denied \<Rightarrow> Inl ErrPermission
                      | File content \<Rightarrow> Inr content)"

definition os_Create :: "filesystem \<Rightarrow> string \<Rightarrow> error + filesystem" where
  "os_Create fs name = (case fs name of Denied \<Rightarrow> Inl ErrPermission | _ \<Rightarrow> Inr (fs (name := File [])))"

definition maxRW :: nat where
  "maxRW = 2 ^ 30"

definition file_Read :: "string \<Rightarrow> byte list \<Rightarrow> (nat \<times> error option) \<times> byte list \<times> string" where
  "file_Read file p =
     (if p = [] then ((0, None), p, file)
      else if file = [] then ((0, Some EOF), p, file)
      else let n = min (min (length p) maxRW) (length file)
           in ((n, None), map of_char (take n file) @ drop n p, drop n file))"

text \<open>
  \<open>bufio.Scanner\<close> with the split function \<open>bufio.ScanLines\<close> and its default buffer.
  The scanner reads ahead: \<open>src\<close> is the file from its current offset, which is where
  a direct \<open>file.Read\<close> of the same file continues; \<open>buf\<close> is \<open>s.buf[s.start:s.end]\<close>, the
  bytes read and not yet returned; \<open>cap\<close> is \<open>len(s.buf)\<close>.
\<close>

record Scanner =
  src :: string
  buf :: string
  start :: nat
  cap :: nat
  err :: "error option"

definition NewScanner :: "string \<Rightarrow> Scanner" where
  "NewScanner file = \<lparr>src = file, buf = [], start = 0, cap = 0, err = None\<rparr>"

definition maxTokenSize :: nat where
  "maxTokenSize = 64 * 1024"

definition startBufSize :: nat where
  "startBufSize = 4096"

definition bufEnd :: "Scanner \<Rightarrow> nat" where
  "bufEnd s = start s + length (buf s)"

fun IndexByte :: "string \<Rightarrow> char \<Rightarrow> nat option" where
  "IndexByte [] c = None"
| "IndexByte (x # xs) c = (if x = c then Some 0 else map_option Suc (IndexByte xs c))"

definition dropCR :: "string \<Rightarrow> string" where
  "dropCR d = (if d \<noteq> [] \<and> last d = CHR 0x0D then butlast d else d)"

definition ScanLines :: "string \<Rightarrow> bool \<Rightarrow> nat \<times> string option" where
  "ScanLines d atEOF =
     (if atEOF \<and> d = [] then (0, None)
      else (case IndexByte d (CHR 0x0A) of
              Some i \<Rightarrow> (i + 1, Some (dropCR (take i d)))
            | None \<Rightarrow> if atEOF then (length d, Some (dropCR d)) else (0, None)))"

text \<open>The three steps of \<open>Scan\<close> when the buffer holds no whole token: move the data to
  the front of the buffer, double a full buffer (up to \<open>maxTokenSize\<close>), read.\<close>

definition shift :: "Scanner \<Rightarrow> Scanner" where
  "shift s = (if 0 < start s \<and> (bufEnd s = cap s \<or> cap s div 2 < start s) then s\<lparr>start := 0\<rparr> else s)"

definition grow :: "Scanner \<Rightarrow> Scanner option" where
  "grow s =
     (if bufEnd s = cap s then
        (if maxTokenSize \<le> cap s then None
         else Some (s\<lparr>cap := min (if cap s * 2 = 0 then startBufSize else cap s * 2) maxTokenSize,
                       start := 0\<rparr>))
      else Some s)"

definition fill :: "Scanner \<Rightarrow> Scanner" where
  "fill s =
     (let n = min (cap s - bufEnd s) (length (src s))
      in if cap s - bufEnd s = 0 then s\<lparr>err := Some ErrNoProgress\<rparr>
         else if src s = [] then s\<lparr>err := Some EOF\<rparr>
         else s\<lparr>buf := buf s @ take n (src s), src := drop n (src s)\<rparr>)"

function Scan :: "Scanner \<Rightarrow> bool \<times> string \<times> Scanner" where
  "Scan s =
     (case (if buf s = [] \<and> err s = None then (0, None) else ScanLines (buf s) (err s \<noteq> None)) of
        (advance, Some token) \<Rightarrow>
          (True, token, s\<lparr>buf := drop advance (buf s), start := start s + advance\<rparr>)
      | (advance, None) \<Rightarrow>
          if err s \<noteq> None then (False, [], s\<lparr>start := 0, buf := []\<rparr>)
          else (case grow (shift s) of
                  None \<Rightarrow> (False, [], (shift s)\<lparr>err := Some ErrTooLong\<rparr>)
                | Some s' \<Rightarrow> Scan (fill s')))"
  by pat_completeness auto
termination
proof (relation "measure (\<lambda>s. 2 * length (src s) + (if err s = None then 1 else 0))", goal_cases)
  case 1
  show ?case by simp
next
  case (2 s advance token s')
  from \<open>grow (shift s) = Some s'\<close> have "src s' = src s" and "err s' = err s"
    by (auto simp: grow_def shift_def split: if_splits)
  with \<open>\<not> err s \<noteq> None\<close> show ?case
    by (cases "src s") (auto simp: fill_def Let_def)
qed

declare Scan.simps [simp del]

definition Scanner_Err :: "Scanner \<Rightarrow> error option" where
  "Scanner_Err s = (if err s = Some EOF then None else err s)"

text \<open>The errors a scanner keeps: none, the end of the file, and its own two.\<close>

definition io_errors :: "error option \<Rightarrow> bool" where
  "io_errors e = (e = None \<or> e = Some EOF \<or> e = Some ErrNoProgress \<or> e = Some ErrTooLong)"

text \<open>\<open>readNextLine\<close>, the closure of all three readers: the next line that, trimmed,
  is neither empty nor a comment. With no such line left it returns the empty string and
  \<open>scanner.Err()\<close>, which is nil at the end of the file.\<close>

lemma Scan_pending:
  "Scan s = (True, token, s') \<Longrightarrow> length (buf s') + length (src s') < length (buf s) + length (src s)"
proof (induction s rule: Scan.induct)
  case (1 s)
  show ?case
  proof (cases "if buf s = [] \<and> err s = None then (0, None) else ScanLines (buf s) (err s \<noteq> None)")
    case (Pair advance tok)
    show ?thesis
    proof (cases tok)
      case (Some t)
      with Pair have sl: "ScanLines (buf s) (err s \<noteq> None) = (advance, Some t)" and ne: "buf s \<noteq> []"
        by (auto simp: ScanLines_def split: if_splits)
      from sl ne have "0 < advance"
        by (auto simp: ScanLines_def split: if_splits option.splits)
      moreover from Pair Some "1.prems"
      have "s' = s\<lparr>buf := drop advance (buf s), start := start s + advance\<rparr>"
        by (subst (asm) Scan.simps) simp
      ultimately show ?thesis using ne by simp
    next
      case None
      show ?thesis
      proof (cases "err s \<noteq> None")
        case True
        with Pair None "1.prems" show ?thesis
          by (subst (asm) Scan.simps) simp
      next
        case False
        show ?thesis
        proof (cases "grow (shift s)")
          case gn: None
          with Pair None False "1.prems" show ?thesis
            by (subst (asm) Scan.simps) simp
        next
          case (Some s1)
          with Pair None False "1.prems" have "Scan (fill s1) = (True, token, s')"
            by (subst (asm) Scan.simps) simp
          with "1.IH" Pair None False Some
          have "length (buf s') + length (src s') < length (buf (fill s1)) + length (src (fill s1))"
            by simp
          moreover from Some have "buf s1 = buf s" and "src s1 = src s"
            by (auto simp: grow_def shift_def split: if_splits)
          then have "length (buf (fill s1)) + length (src (fill s1)) = length (buf s) + length (src s)"
            by (simp add: fill_def Let_def)
          ultimately show ?thesis by simp
        qed
      qed
    qed
  qed
qed

function readNextLine :: "Scanner \<Rightarrow> string \<times> error option \<times> Scanner" where
  "readNextLine s =
     (case Scan s of
        (True, token, s') \<Rightarrow>
          let line = TrimSpace token
          in if line \<noteq> [] \<and> \<not> HasPrefix line ''#'' then (line, None, s') else readNextLine s'
      | (False, token, s') \<Rightarrow> ([], Scanner_Err s', s'))"
  by pat_completeness auto
termination
proof (relation "measure (\<lambda>s. length (buf s) + length (src s))", goal_cases)
  case 1
  show ?case by simp
next
  case (2 s ok rest token s' line)
  then have "Scan s = (True, token, s')" by simp
  then show ?case by (simp add: Scan_pending)
qed

declare readNextLine.simps [simp del]

subsection \<open>Slices, loops and allocation\<close>

definition bind :: "'a result \<Rightarrow> ('a \<Rightarrow> 'b result) \<Rightarrow> 'b result" where
  "bind m f = (case m of Ok v \<Rightarrow> f v | Err e \<Rightarrow> Err e | Panic p \<Rightarrow> Panic p)"

text \<open>\<open>xs[i]\<close>, \<open>d[i][j]\<close> and \<open>d[i][j] = v\<close> with Go's bounds checks.\<close>

definition index :: "'a list \<Rightarrow> int \<Rightarrow> 'a result" where
  "index xs i = (if i < 0 \<or> int (length xs) \<le> i then Panic (IndexOutOfRange i (length xs))
                 else Ok (xs ! nat i))"

definition load2 :: "'a list list \<Rightarrow> int \<Rightarrow> int \<Rightarrow> 'a result" where
  "load2 d i j = bind (index d i) (\<lambda>row. index row j)"

definition store2 :: "'a list list \<Rightarrow> int \<Rightarrow> int \<Rightarrow> 'a \<Rightarrow> 'a list list result" where
  "store2 d i j v =
     bind (index d i) (\<lambda>row.
       if j < 0 \<or> int (length row) \<le> j then Panic (IndexOutOfRange j (length row))
       else Ok (d[nat i := row[nat j := v]]))"

text \<open>\<open>for i := lo; i < n; i++ { body }\<close> on the state \<open>s\<close> the body updates; an error or a
  panic of the body ends the loop.\<close>

function for_loop :: "int \<Rightarrow> int \<Rightarrow> (int \<Rightarrow> 's \<Rightarrow> 's result) \<Rightarrow> 's \<Rightarrow> 's result" where
  "for_loop i n body s =
     (if i < n then (case body i s of Ok s' \<Rightarrow> for_loop (i + 1) n body s'
                                       | Err e \<Rightarrow> Err e | Panic p \<Rightarrow> Panic p)
      else Ok s)"
  by pat_completeness auto
termination
  by (relation "measure (\<lambda>(i, n, body, s). nat (n - i))") auto

declare for_loop.simps [simp del]

text \<open>
  \<open>data = make([][]T, height)\<close> and \<open>data[i] = make([]T, width)\<close> for every row, \<open>T\<close> of
  \<open>esz\<close> bytes and zero value \<open>z\<close>, on a 64-bit platform with 48 bits of heap addresses
  (amd64, arm64): \<open>make\<close> panics when the slice would be larger than \<open>maxAlloc\<close>, and the
  runtime aborts when the rows together would be. Below that bound memory is taken to
  suffice. No sum or product of the readers overflows 64 bits beyond this point.
\<close>

definition maxAlloc :: int where
  "maxAlloc = 2 ^ 48"

definition make_data :: "int \<Rightarrow> int \<Rightarrow> int \<Rightarrow> 'a \<Rightarrow> 'a list list result" where
  "make_data esz height width z =
     (if height < 0 \<or> maxAlloc < height * 24 then Panic MakesliceLenOutOfRange
      else if width < 0 \<or> maxAlloc < width * esz then Panic MakesliceLenOutOfRange
      else if maxAlloc < height * width * esz then Panic OutOfMemory
      else Ok (replicate (nat height) (replicate (nat width) z)))"

subsection \<open>The readers\<close>

text \<open>The body of an ASCII image (P1, P2): \<open>for j, token := range tokens\<close> stores the
  pixel \<open>conv pixel\<close> of every token of the line, whatever the width of the row is.\<close>

fun range_tokens :: "(int \<Rightarrow> 'a) \<Rightarrow> int \<Rightarrow> int \<Rightarrow> string list \<Rightarrow> 'a list list \<Rightarrow> 'a list list result" where
  "range_tokens conv i j [] d = Ok d"
| "range_tokens conv i j (token # tokens) d =
     (case Atoi token of
        (pixel, Some e) \<Rightarrow> Err e
      | (pixel, None) \<Rightarrow>
          (case store2 d i j (conv pixel) of
             Ok d' \<Rightarrow> range_tokens conv i (j + 1) tokens d'
           | Err e \<Rightarrow> Err e
           | Panic p \<Rightarrow> Panic p))"

definition ascii_row :: "(int \<Rightarrow> 'a) \<Rightarrow> int \<Rightarrow> 'a list list \<times> Scanner \<Rightarrow> ('a list list \<times> Scanner) result" where
  "ascii_row conv i st =
     (case readNextLine (snd st) of
        (line, Some e, sc) \<Rightarrow> Err e
      | (line, None, sc) \<Rightarrow>
          bind (range_tokens conv i 0 (Fields line) (fst st)) (\<lambda>d. Ok (d, sc)))"

definition ascii_body :: "(int \<Rightarrow> 'a) \<Rightarrow> int \<Rightarrow> 'a list list \<Rightarrow> Scanner \<Rightarrow> ('a list list \<times> Scanner) result" where
  "ascii_body conv height d sc = for_loop 0 height (ascii_row conv) (d, sc)"

text \<open>The body of a P4 image. \<open>file.Read(buffer)\<close> reads the file the scanner wraps, at the
  offset the scanner has left it; the number of bytes it returns is dropped.\<close>

definition bytesPerRow :: "int \<Rightarrow> int" where
  "bytesPerRow width = (let paddingBits = (8 - width smod 8) smod 8 in (width + paddingBits + 7) sdiv 8)"

definition P4_pixel :: "(bool \<Rightarrow> 'a) \<Rightarrow> byte list \<Rightarrow> int \<Rightarrow> int \<Rightarrow> 'a list list \<Rightarrow> 'a list list result" where
  "P4_pixel conv buffer i j d =
     (let byteIndex = j sdiv 8;
          bitIndex = 7 - (j smod 8)
      in bind (index buffer byteIndex) (\<lambda>b.
           store2 d i j (conv ((drop_bit (nat bitIndex) b) AND 1 = 1))))"

definition P4_row :: "(bool \<Rightarrow> 'a) \<Rightarrow> int \<Rightarrow> int \<Rightarrow> 'a list list \<times> byte list \<times> Scanner
    \<Rightarrow> ('a list list \<times> byte list \<times> Scanner) result" where
  "P4_row conv width i st =
     (case st of (d, buffer, sc) \<Rightarrow>
        (case file_Read (src sc) buffer of
           ((n, Some e), buffer', file') \<Rightarrow> Err e
         | ((n, None), buffer', file') \<Rightarrow>
             bind (for_loop 0 width (P4_pixel conv buffer' i) d)
               (\<lambda>d'. Ok (d', buffer', sc\<lparr>src := file'\<rparr>))))"

definition P4_body :: "(bool \<Rightarrow> 'a) \<Rightarrow> int \<Rightarrow> int \<Rightarrow> 'a list list \<Rightarrow> Scanner
    \<Rightarrow> ('a list list \<times> byte list \<times> Scanner) result" where
  "P4_body conv width height d sc =
     for_loop 0 height (P4_row conv width) (d, replicate (nat (bytesPerRow width)) 0, sc)"

text \<open>The body of a P5 image: one \<open>file.Read\<close> into a buffer of \<open>width * height\<close> bytes.\<close>

definition P5_pixel :: "byte list \<Rightarrow> int \<Rightarrow> int \<Rightarrow> int \<Rightarrow> byte list list \<Rightarrow> byte list list result" where
  "P5_pixel buffer width i j d = bind (index buffer (i * width + j)) (\<lambda>b. store2 d i j b)"

definition P5_body :: "int \<Rightarrow> int \<Rightarrow> byte list list \<Rightarrow> Scanner \<Rightarrow> (byte list list \<times> Scanner) result" where
  "P5_body width height d sc =
     (case file_Read (src sc) (replicate (nat (width * height)) 0) of
        ((n, Some e), buffer, file') \<Rightarrow> Err e
      | ((n, None), buffer, file') \<Rightarrow>
          bind (for_loop 0 height (\<lambda>i. for_loop 0 width (P5_pixel buffer width i)) d)
            (\<lambda>d'. Ok (d', sc\<lparr>src := file'\<rparr>)))"

subsection \<open>The images\<close>

text \<open>
  \<open>type PBM struct\<close> with \<open>data [][]bool\<close> (the bitmap reader and its methods) or
  \<open>data [][]int\<close> (the variant reader), and \<open>type PGM struct\<close> with \<open>data [][]uint8\<close> and
  the further field \<open>max\<close>.
\<close>

record 'a PBM =
  data :: "'a list list"
  width :: int
  height :: int
  magicNumber :: string

record PGM = "byte PBM" +
  max_value :: int

text \<open>\<open>ReadPBM\<close> after \<open>os.Open\<close>, for both variants: \<open>esz\<close> is the size of a pixel,
  \<open>ofInt\<close> the pixel of a P1 token and \<open>ofBit\<close> the pixel of a P4 bit.\<close>

definition readPBM :: "int \<Rightarrow> 'a \<Rightarrow> (int \<Rightarrow> 'a) \<Rightarrow> (bool \<Rightarrow> 'a) \<Rightarrow> string \<Rightarrow> 'a PBM result" where
  "readPBM esz z ofInt ofBit file =
     (case readNextLine (NewScanner file) of
        (magic, Some e, sc) \<Rightarrow> Err e
      | (magic, None, sc) \<Rightarrow>
          if magic \<noteq> ''P1'' \<and> magic \<noteq> ''P4'' then Err UnsupportedFileType
          else
            (case readNextLine sc of
               (dimensions, Some e, sc) \<Rightarrow> Err e
             | (dimensions, None, sc) \<Rightarrow>
                 let dimTokens = Fields dimensions
                 in if length dimTokens \<noteq> 2 then Err InvalidDimensions
                    else
                      let width = fst (Atoi (dimTokens ! 0));
                          height = fst (Atoi (dimTokens ! 1))
                      in if 0 < width \<and> 0 < height then
                           bind (make_data esz height width z) (\<lambda>d.
                             if magic = ''P1'' then
                               bind (ascii_body ofInt height d sc) (\<lambda>(d, sc).
                                 Ok \<lparr>data = d, width = width, height = height,
                                     magicNumber = magic\<rparr>)
                             else if magic = ''P4'' then
                               bind (P4_body ofBit width height d sc) (\<lambda>(d, buffer, sc).
                                 Ok \<lparr>data = d, width = width, height = height,
                                     magicNumber = magic\<rparr>)
                             else Ok \<lparr>data = d, width = width, height = height,
                                       magicNumber = magic\<rparr>)
                         else Ok \<lparr>data = [], width = width, height = height,
                                   magicNumber = magic\<rparr>))"

text \<open>\<open>ReadPBM\<close> of the bitmap reader with boolean pixels (\<open>data[i][j] = pixel == 1\<close>,
  \<open>data[i][j] = bit == 1\<close>), and of the variant with \<open>int\<close> pixels (\<open>data[i][j] = pixel\<close>,
  \<open>data[i][j] = bit\<close>).\<close>

definition ReadPBM :: "filesystem \<Rightarrow> string \<Rightarrow> bool PBM result" where
  "ReadPBM fs filename =
     (case os_Open fs filename of
        Inl e \<Rightarrow> Err e
      | Inr file \<Rightarrow> readPBM 1 False (\<lambda>pixel. pixel = 1) (\<lambda>bit. bit) file)"

definition ReadPBM_int :: "filesystem \<Rightarrow> string \<Rightarrow> int PBM result" where
  "ReadPBM_int fs filename =
     (case os_Open fs filename of
        Inl e \<Rightarrow> Err e
      | Inr file \<Rightarrow> readPBM 8 0 (\<lambda>pixel. pixel) (\<lambda>bit. if bit then 1 else 0) file)"

definition ReadPGM :: "filesystem \<Rightarrow> string \<Rightarrow> PGM result" where
  "ReadPGM fs filename =
     (case os_Open fs filename of
        Inl e \<Rightarrow> Err e
      | Inr file \<Rightarrow>
     (case readNextLine (NewScanner file) of
        (magic, Some e, sc) \<Rightarrow> Err e
      | (magic, None, sc) \<Rightarrow>
          if magic \<noteq> ''P2'' \<and> magic \<noteq> ''P5'' then Err UnsupportedFileType
          else
            (case readNextLine sc of
               (dimensions, Some e, sc) \<Rightarrow> Err e
             | (dimensions, None, sc) \<Rightarrow>
                 let dimTokens = Fields dimensions
                 in if length dimTokens \<noteq> 2 then Err InvalidDimensions
                    else
                      let width = fst (Atoi (dimTokens ! 0));
                          height = fst (Atoi (dimTokens ! 1))
                      in (case readNextLine sc of
                            (maxValueStr, Some e, sc) \<Rightarrow> Err e
                          | (maxValueStr, None, sc) \<Rightarrow>
                              (case Atoi maxValueStr of
                                 (maxValue, Some e) \<Rightarrow> Err InvalidMaxValue
                               | (maxValue, None) \<Rightarrow>
                                   if 0 < width \<and> 0 < height then
                                     bind (make_data 1 height width 0) (\<lambda>d.
                                       if magic = ''P2'' then
                                         bind (ascii_body word_of_int height d sc) (\<lambda>(d, sc).
                                           Ok \<lparr>data = d, width = width, height = height,
                                               magicNumber = magic, max_value = maxValue\<rparr>)
                                       else if magic = ''P5'' then
                                         bind (P5_body width height d sc) (\<lambda>(d, sc).
                                           Ok \<lparr>data = d, width = width, height = height,
                                               magicNumber = magic, max_value = maxValue\<rparr>)
                                       else Ok \<lparr>data = d, width = width, height = height,
                                                 magicNumber = magic, max_value = maxValue\<rparr>)
                                   else Ok \<lparr>data = [], width = width, height = height,
                                             magicNumber = magic, max_value = maxValue\<rparr>)))))"

subsection \<open>The methods\<close>

text \<open>
  \<open>Size\<close>, \<open>At\<close>, \<open>Set\<close>, \<open>Flip\<close>, \<open>Flop\<close> and \<open>SetMagicNumber\<close> have the same text for
  \<open>*PBM\<close> and \<open>*PGM\<close>; they are given once, for both records. A method that updates the
  image in place returns the updated image.
\<close>

definition Size :: "('a, 'z) PBM_scheme \<Rightarrow> int \<times> int" where
  "Size pbm = (width pbm, height pbm)"

definition At :: "('a, 'z) PBM_scheme \<Rightarrow> int \<Rightarrow> int \<Rightarrow> 'a result" where
  "At pbm x y = load2 (data pbm) y x"

definition Set :: "('a, 'z) PBM_scheme \<Rightarrow> int \<Rightarrow> int \<Rightarrow> 'a \<Rightarrow> ('a, 'z) PBM_scheme result" where
  "Set pbm x y v = bind (store2 (data pbm) y x v) (\<lambda>d. Ok (pbm\<lparr>data := d\<rparr>))"

definition PBM_Invert :: "(bool, 'z) PBM_scheme \<Rightarrow> (bool, 'z) PBM_scheme result" where
  "PBM_Invert pbm =
     bind (for_loop 0 (height pbm) (\<lambda>i.
             for_loop 0 (width pbm) (\<lambda>j d.
               bind (load2 d i j) (\<lambda>v. store2 d i j (\<not> v))))
            (data pbm))
       (\<lambda>d. Ok (pbm\<lparr>data := d\<rparr>))"

definition PGM_Invert :: "PGM \<Rightarrow> PGM result" where
  "PGM_Invert pgm =
     bind (for_loop 0 (height pgm) (\<lambda>i.
             for_loop 0 (width pgm) (\<lambda>j d.
               bind (load2 d i j) (\<lambda>v. store2 d i j (word_of_int (max_value pgm) - v))))
            (data pgm))
       (\<lambda>d. Ok (pgm\<lparr>data := d\<rparr>))"

text \<open>A tuple assignment \<open>a, b = b, a\<close> of two elements: both are loaded before either is
  stored, and the compiled code checks the indices of \<open>a\<close>, the first operand on the left,
  before those of \<open>b\<close>.\<close>

definition swap2 :: "'a list list \<Rightarrow> int \<Rightarrow> int \<Rightarrow> int \<Rightarrow> int \<Rightarrow> 'a list list result" where
  "swap2 d i j k l =
     bind (load2 d i j) (\<lambda>v2. bind (load2 d k l) (\<lambda>v1.
       bind (store2 d i j v1) (\<lambda>d1. store2 d1 k l v2)))"

definition Flip :: "('a, 'z) PBM_scheme \<Rightarrow> ('a, 'z) PBM_scheme result" where
  "Flip pbm =
     bind (for_loop 0 (height pbm) (\<lambda>i.
             for_loop 0 (width pbm sdiv 2) (\<lambda>j d. swap2 d i j i (width pbm - j - 1)))
            (data pbm))
       (\<lambda>d. Ok (pbm\<lparr>data := d\<rparr>))"

definition Flop :: "('a, 'z) PBM_scheme \<Rightarrow> ('a, 'z) PBM_scheme result" where
  "Flop pbm =
     bind (for_loop 0 (height pbm sdiv 2) (\<lambda>i.
             for_loop 0 (width pbm) (\<lambda>j d. swap2 d i j (height pbm - i - 1) j))
            (data pbm))
       (\<lambda>d. Ok (pbm\<lparr>data := d\<rparr>))"

definition SetMagicNumber :: "('a, 'z) PBM_scheme \<Rightarrow> string \<Rightarrow> ('a, 'z) PBM_scheme" where
  "SetMagicNumber pbm magic = pbm\<lparr>magicNumber := magic\<rparr>"

definition SetMaxValue :: "PGM \<Rightarrow> byte \<Rightarrow> PGM" where
  "SetMaxValue pgm maxValue = pgm\<lparr>max_value := uint maxValue\<rparr>"

text \<open>
  \<open>Save\<close> writes through a \<open>bufio.Writer\<close>: the header, then every pixel with \<open>"%d "\<close>
  and a newline after every row. \<open>out\<close> is the text written so far. The writer passes
  the text on to the file in order. The file takes \<open>space\<close> bytes, the room that the device
  and the limits of the process leave, and never more than \<open>maxFileSize\<close>, the largest
  offset of a file; the \<open>file.Write\<close> that goes beyond fails, after the bytes that fit. The
  writer keeps the first error of a write and drops what is written after it, the
  results of \<open>fmt.Fprintf\<close> are not looked at, and \<open>writer.Flush()\<close>, whose result \<open>Save\<close>
  returns, returns that error: \<open>Save\<close> returns an error exactly when the text is longer
  than the room. It returns the file system and the error.
\<close>

definition maxFileSize :: nat where
  "maxFileSize = 2 ^ 63 - 1"

definition Flush :: "nat \<Rightarrow> string \<Rightarrow> string \<times> error option" where
  "Flush space out =
     (let room = min space maxFileSize
      in if length out \<le> room then (out, None) else (take room out, Some ErrNoSpace))"

definition Save_rows :: "('a \<Rightarrow> int) \<Rightarrow> ('a, 'z) PBM_scheme \<Rightarrow> string \<Rightarrow> string result" where
  "Save_rows toInt pbm out =
     for_loop 0 (height pbm) (\<lambda>i out.
       bind (for_loop 0 (width pbm) (\<lambda>j out.
               bind (load2 (data pbm) i j) (\<lambda>v. Ok (out @ FormatInt (toInt v) @ '' '')))
              out)
         (\<lambda>out. Ok (out @ ''\<newline>'')))
       out"

definition PBM_Save :: "bool PBM \<Rightarrow> filesystem \<Rightarrow> nat \<Rightarrow> string \<Rightarrow> (filesystem \<times> error option) result" where
  "PBM_Save pbm fs space filename =
     (case os_Create fs filename of
        Inl e \<Rightarrow> Ok (fs, Some e)
      | Inr fs' \<Rightarrow>
          bind (Save_rows (\<lambda>b. if b then 1 else 0) pbm
                  (magicNumber pbm @ ''\<newline>'' @ FormatInt (width pbm) @ '' '' @
                   FormatInt (height pbm) @ ''\<newline>''))
            (\<lambda>out. case Flush space out of (written, e) \<Rightarrow> Ok (fs' (filename := File written), e)))"

definition PGM_Save :: "PGM \<Rightarrow> filesystem \<Rightarrow> nat \<Rightarrow> string \<Rightarrow> (filesystem \<times> error option) result" where
  "PGM_Save pgm fs space filename =
     (case os_Create fs filename of
        Inl e \<Rightarrow> Ok (fs, Some e)
      | Inr fs' \<Rightarrow>
          bind (Save_rows uint pgm
                  (magicNumber pgm @ ''\<newline>'' @ FormatInt (width pgm) @ '' '' @
                   FormatInt (height pgm) @ ''\<newline>'' @ FormatInt (max_value pgm) @ ''\<newline>''))
            (\<lambda>out. case Flush space out of (written, e) \<Rightarrow> Ok (fs' (filename := File written), e)))"

subsection \<open>Rectangular images\<close>

text \<open>An image as the readers build it: \<open>height\<close> rows of \<open>width\<close> pixels when both are
  positive, and no row at all otherwise.\<close>

definition rect :: "int \<Rightarrow> int \<Rightarrow> 'a list list \<Rightarrow> bool" where
  "rect h w d = (length d = nat h \<and> list_all (\<lambda>row. length row = nat w) d)"

definition rectangular :: "('a, 'z) PBM_scheme \<Rightarrow> bool" where
  "rectangular pbm =
     (if 0 < width pbm \<and> 0 < height pbm then rect (height pbm) (width pbm) (data pbm)
      else data pbm = [])"


text \<open>\<open>same_shape pbm pbm'\<close>: \<open>pbm'\<close> is rectangular again, with the width, the height and
  the length of every row of \<open>pbm\<close>.\<close>

definition same_shape :: "('a, 'z) PBM_scheme \<Rightarrow> ('a, 'z) PBM_scheme \<Rightarrow> bool" where
  "same_shape pbm pbm' =
     (rectangular pbm' \<and> width pbm' = width pbm \<and> height pbm' = height pbm
      \<and> map length (data pbm') = map length (data pbm))"

subsection \<open>The lines of an ASCII body\<close>

text \<open>
  \<open>read_lines n sc\<close>: the lines that the next \<open>n\<close> calls of \<open>readNextLine\<close> return, when
  none of them returns an error (a call at the end of the file returns the empty line).
  \<open>ascii_pixels conv W z line\<close>: the pixels of the tokens of a line, then the zero value
  \<open>z\<close> up to \<open>W\<close> pixels. \<open>rows_fit W ls\<close>: every line has at most \<open>W\<close> tokens, and
  \<open>strconv.Atoi\<close> accepts them all.
\<close>

fun read_lines :: "nat \<Rightarrow> Scanner \<Rightarrow> (string list \<times> Scanner) option" where
  "read_lines 0 sc = Some ([], sc)"
| "read_lines (Suc n) sc =
     (case readNextLine sc of
        (line, None, sc') \<Rightarrow> map_option (\<lambda>(ls, sc''). (line # ls, sc'')) (read_lines n sc')
      | (line, Some e, sc') \<Rightarrow> None)"

definition ascii_pixels :: "(int \<Rightarrow> 'a) \<Rightarrow> nat \<Rightarrow> 'a \<Rightarrow> string \<Rightarrow> 'a list" where
  "ascii_pixels conv W z line =
     map (\<lambda>token. conv (fst (Atoi token))) (Fields line) @ replicate (W - length (Fields line)) z"

definition rows_fit :: "nat \<Rightarrow> string list \<Rightarrow> bool" where
  "rows_fit W ls =
     list_all (\<lambda>line. length (Fields line) \<le> W \<and> list_all (\<lambda>token. snd (Atoi token) = None) (Fields line)) ls"

subsection \<open>Files for the examples\<close>

text \<open>A file system with the one file \<open>''image''\<close>. \<open>padded magic rest\<close> is a header whose
  comment line fills it up to 4096 bytes, the size of the scanner's first read: the
  bytes after it are the ones a \<open>file.Read\<close> after the header meets.\<close>

definition disk :: "string \<Rightarrow> filesystem" where
  "disk content = (\<lambda>name. Absent) (''image'' := File content)"

definition padded :: "string \<Rightarrow> string \<Rightarrow> string" where
  "padded magic rest =
     magic @ ''\<newline>#'' @ replicate (4096 - length magic - length rest - 4) (CHR ''-'') @ ''.\<newline>'' @ rest"

text \<open>Row \<open>i\<close> of a P4 body of rows of \<open>B\<close> bytes: pixel \<open>j\<close> is bit \<open>7 - j mod 8\<close> of byte
  \<open>j div 8\<close> of the row.\<close>

definition P4_bits :: "(bool \<Rightarrow> 'a) \<Rightarrow> nat \<Rightarrow> nat \<Rightarrow> string \<Rightarrow> nat \<Rightarrow> 'a list" where
  "P4_bits conv W B body i =
     map (\<lambda>j. conv (bit (of_char (body ! (i * B + j div 8)) :: byte) (7 - j mod 8))) [0..<W]"

subsection \<open>The scanner's input, and the text of an image\<close>

text \<open>
  \<open>pending s\<close>: the bytes the scanner has yet to hand out, those in its buffer and then
  those left in the file. \<open>scanner_ok s\<close>: the window fits the buffer, the buffer is no
  larger than \<open>bufio.MaxScanTokenSize\<close>, and the only error the scanner has met is the end
  of the file.
\<close>

definition pending :: "Scanner \<Rightarrow> string" where
  "pending s = buf s @ src s"

definition scanner_ok :: "Scanner \<Rightarrow> bool" where
  "scanner_ok s = (bufEnd s \<le> cap s \<and> cap s \<le> maxTokenSize
                   \<and> (err s = None \<or> err s = Some EOF \<and> src s = []))"

text \<open>
  The characters of a number as \<open>%d\<close> prints it are \<open>plain\<close>. \<open>spaced toks\<close> is a line of
  tokens with a blank after each; \<open>row_text toInt row\<close> is the line \<open>Save\<close> writes for a
  row of pixels (without its newline), and \<open>body_text toInt d\<close> are the lines of all rows.
\<close>

definition plain :: "char \<Rightarrow> bool" where
  "plain c = (isDigit c \<or> c = CHR ''-'')"

definition spaced :: "string list \<Rightarrow> string" where
  "spaced toks = concat (map (\<lambda>t. t @ '' '') toks)"

definition row_text :: "('a \<Rightarrow> int) \<Rightarrow> 'a list \<Rightarrow> string" where
  "row_text toInt row = concat (map (\<lambda>v. FormatInt (toInt v) @ '' '') row)"

definition body_text :: "('a \<Rightarrow> int) \<Rightarrow> 'a list list \<Rightarrow> string" where
  "body_text toInt d = concat (map (\<lambda>row. row_text toInt row @ [CHR 0x0A]) d)"

section \<open>Properties\<close>

subsection \<open>Results, loops and slices\<close>

lemma bind_simps [simp]:
  "bind (Ok v) f = f v" "bind (Err e) f = Err e" "bind (Panic p) f = Panic p"
  by (simp_all add: bind_def)

lemma bind_eq_Ok: "bind m f = Ok y \<longleftrightarrow> (\<exists>v. m = Ok v \<and> f v = Ok y)"
  by (cases m) simp_all

lemma sdiv_nonneg: "0 \<le> a \<Longrightarrow> 0 < b \<Longrightarrow> a sdiv b = a div (b::int)"
  by (simp add: signed_divide_int_def sgn_if)

lemma smod_nonneg: "0 \<le> a \<Longrightarrow> 0 < b \<Longrightarrow> a smod b = a mod (b::int)"
  by (simp add: signed_modulo_int_def sgn_if)

lemma for_loop_step: "i < n \<Longrightarrow> for_loop i n body s = bind (body i s) (for_loop (i + 1) n body)"
  by (subst for_loop.simps) (simp add: bind_def)

lemma for_loop_done: "\<not> i < n \<Longrightarrow> for_loop i n body s = Ok s"
  by (subst for_loop.simps) simp

lemma for_loop_inv:
  assumes "I i s" and "i \<le> n"
    and "\<And>k t. i \<le> k \<Longrightarrow> k < n \<Longrightarrow> I k t \<Longrightarrow> \<exists>t'. body k t = Ok t' \<and> I (k + 1) t'"
  shows "\<exists>t. for_loop i n body s = Ok t \<and> I n t"
  using assms
proof (induction i n body s rule: for_loop.induct)
  case (1 i n body s)
  show ?case
  proof (cases "i < n")
    case True
    with "1.prems" obtain t' where t': "body i s = Ok t'" "I (i + 1) t'"
      by (metis order_refl)
    have "\<exists>t. for_loop (i + 1) n body t' = Ok t \<and> I n t"
    proof (rule "1.IH" [OF True t'(1) t'(2)])
      show "i + 1 \<le> n" using True by simp
    next
      fix k t assume "i + 1 \<le> k" "k < n" "I k t"
      then show "\<exists>t'. body k t = Ok t' \<and> I (k + 1) t'"
        using "1.prems"(3) [of k t] by simp
    qed
    with True t' show ?thesis by (simp add: for_loop_step)
  next
    case False
    with "1.prems" have "i = n" by simp
    with "1.prems" False show ?thesis by (simp add: for_loop_done)
  qed
qed

lemma for_loop_preserves:
  assumes "for_loop i n body s = Ok t" and "P s"
    and "\<And>k u u'. P u \<Longrightarrow> body k u = Ok u' \<Longrightarrow> P u'"
  shows "P t"
  using assms
proof (induction i n body s rule: for_loop.induct)
  case (1 i n body s)
  show ?case
  proof (cases "i < n")
    case True
    with "1.prems"(1) obtain s' where s': "body i s = Ok s'" "for_loop (i + 1) n body s' = Ok t"
      by (auto simp: for_loop_step bind_eq_Ok)
    from "1.prems"(2) s'(1) have "P s'" by (rule "1.prems"(3))
    from "1.IH" [OF True s'(1) s'(2) this] "1.prems"(3) show ?thesis by blast
  next
    case False
    with "1.prems" show ?thesis by (simp add: for_loop_done)
  qed
qed


lemma index_Ok: "0 \<le> i \<Longrightarrow> nat i < length xs \<Longrightarrow> index xs i = Ok (xs ! nat i)"
  by (auto simp: index_def)

lemma load2_Ok:
  "0 \<le> i \<Longrightarrow> nat i < length d \<Longrightarrow> 0 \<le> j \<Longrightarrow> nat j < length (d ! nat i) \<Longrightarrow> load2 d i j = Ok (d ! nat i ! nat j)"
  by (simp add: load2_def index_Ok)

lemma store2_Ok:
  "0 \<le> i \<Longrightarrow> nat i < length d \<Longrightarrow> 0 \<le> j \<Longrightarrow> nat j < length (d ! nat i) \<Longrightarrow>
   store2 d i j v = Ok (d[nat i := (d ! nat i)[nat j := v]])"
  by (auto simp: store2_def index_Ok)

lemma upt_map_step:
  "k < length row \<Longrightarrow>
   (map G [0..<k] @ drop k row)[k := G k] = map G [0..<Suc k] @ drop (Suc k) row"
  by (simp add: list_update_append Cons_nth_drop_Suc [symmetric])

lemma fill_loop:
  assumes len: "length xs = nat n"
    and body: "\<And>k t. 0 \<le> k \<Longrightarrow> k < n \<Longrightarrow> length t = length xs \<Longrightarrow> t ! nat k = xs ! nat k \<Longrightarrow>
                 body k t = Ok (t[nat k := R k])"
  shows "for_loop 0 n body xs = Ok (map (\<lambda>k. R (int k)) [0..<nat n])"
proof (cases "0 \<le> n")
  case False
  with len show ?thesis by (simp add: for_loop_done)
next
  case True
  define I where "I k t \<longleftrightarrow> 0 \<le> k \<and> t = map (\<lambda>k. R (int k)) [0..<nat k] @ drop (nat k) xs" for k t
  have "\<exists>t. for_loop 0 n body xs = Ok t \<and> I n t"
  proof (rule for_loop_inv)
    show "I 0 xs" by (simp add: I_def)
    show "0 \<le> n" by (rule True)
  next
    fix k t assume k: "0 \<le> k" "k < n" and "I k t"
    then have t: "t = map (\<lambda>k. R (int k)) [0..<nat k] @ drop (nat k) xs" by (simp add: I_def)
    from k len have kl: "nat k < length xs" by simp
    have lt: "length t = length xs" using kl by (simp add: t)
    have tk: "t ! nat k = xs ! nat k" using kl by (simp add: t nth_append)
    have "body k t = Ok (t[nat k := R k])" by (rule body [OF k lt tk])
    moreover have "t[nat k := R k] = map (\<lambda>k. R (int k)) [0..<nat (k + 1)] @ drop (nat (k + 1)) xs"
      using upt_map_step [OF kl, of "\<lambda>k. R (int k)"] k by (simp add: t nat_add_distrib)
    ultimately show "\<exists>t'. body k t = Ok t' \<and> I (k + 1) t'" using k by (simp add: I_def)
  qed
  then show ?thesis using len by (auto simp: I_def)
qed

lemma row_loop:
  assumes i: "0 \<le> i" "nat i < length d" and w: "length (d ! nat i) = nat w"
    and body: "\<And>j t. 0 \<le> j \<Longrightarrow> j < w \<Longrightarrow> length t = length d \<Longrightarrow> length (t ! nat i) = nat w \<Longrightarrow>
                 t ! nat i ! nat j = d ! nat i ! nat j \<Longrightarrow>
                 body j t = Ok (t[nat i := (t ! nat i)[nat j := G j]])"
  shows "for_loop 0 w body d = Ok (d[nat i := map (\<lambda>j. G (int j)) [0..<nat w]])"
proof (cases "0 \<le> w")
  case False
  with w have "d ! nat i = []" by simp
  then have "d[nat i := []] = d" by (metis list_update_id)
  with False show ?thesis by (simp add: for_loop_done)
next
  case True
  define row where "row = d ! nat i"
  define I where "I k t \<longleftrightarrow> 0 \<le> k \<and> t = d[nat i := map (\<lambda>j. G (int j)) [0..<nat k] @ drop (nat k) row]" for k t
  have "\<exists>t. for_loop 0 w body d = Ok t \<and> I w t"
  proof (rule for_loop_inv)
    show "I 0 d" by (simp add: I_def row_def)
    show "0 \<le> w" by (rule True)
  next
    fix k t assume k: "0 \<le> k" "k < w" and "I k t"
    then have t: "t = d[nat i := map (\<lambda>j. G (int j)) [0..<nat k] @ drop (nat k) row]" by (simp add: I_def)
    from k w have kl: "nat k < length row" by (simp add: row_def)
    have lt: "length t = length d" by (simp add: t)
    have ti: "t ! nat i = map (\<lambda>j. G (int j)) [0..<nat k] @ drop (nat k) row" using i by (simp add: t)
    have lti: "length (t ! nat i) = nat w"
    proof -
      have "length (t ! nat i) = length row" using kl less_imp_le [OF kl] by (simp add: ti)
      then show ?thesis by (simp add: row_def w)
    qed
    have tk: "t ! nat i ! nat k = d ! nat i ! nat k" using kl by (simp add: ti nth_append row_def)
    have "body k t = Ok (t[nat i := (t ! nat i)[nat k := G k]])" by (rule body [OF k lt lti tk])
    moreover have "(t ! nat i)[nat k := G k] = map (\<lambda>j. G (int j)) [0..<nat (k + 1)] @ drop (nat (k + 1)) row"
      using upt_map_step [OF kl, of "\<lambda>j. G (int j)"] k by (simp add: ti nat_add_distrib)
    ultimately show "\<exists>t'. body k t = Ok t' \<and> I (k + 1) t'" using k by (simp add: I_def t)
  qed
  then show ?thesis using w by (auto simp: I_def row_def)
qed


lemma rect_nth: "rect h w d \<Longrightarrow> i < length d \<Longrightarrow> length (d ! i) = nat w"
  by (simp add: rect_def list_all_length)

lemma for_loop_skip:
  assumes "\<And>k t. body k t = Ok t"
  shows "for_loop i n body s = Ok s"
  using assms
proof (induction i n body s rule: for_loop.induct)
  case (1 i n body s)
  show ?case
  proof (cases "i < n")
    case True
    have b: "body i s = Ok s" by (rule "1.prems")
    have "for_loop (i + 1) n body s = Ok s" by (rule "1.IH" [OF True b "1.prems"])
    with True b show ?thesis by (simp add: for_loop_step)
  next
    case False
    then show ?thesis by (simp add: for_loop_done)
  qed
qed

lemma grid_loop:
  assumes len: "length d = nat h" and rows: "\<And>i. i < length d \<Longrightarrow> length (d ! i) = nat w"
    and body: "\<And>i j t. 0 \<le> i \<Longrightarrow> i < h \<Longrightarrow> 0 \<le> j \<Longrightarrow> j < w \<Longrightarrow> length t = length d \<Longrightarrow>
                 length (t ! nat i) = nat w \<Longrightarrow> t ! nat i ! nat j = d ! nat i ! nat j \<Longrightarrow>
                 body i j t = Ok (t[nat i := (t ! nat i)[nat j := G i j]])"
  shows "for_loop 0 h (\<lambda>i. for_loop 0 w (body i)) d =
         Ok (map (\<lambda>i. map (\<lambda>j. G (int i) (int j)) [0..<nat w]) [0..<nat h])"
proof (rule fill_loop [OF len])
  fix i t assume i: "0 \<le> i" "i < h" and lt: "length t = length d" and ti: "t ! nat i = d ! nat i"
  from i len have il: "nat i < length d" by simp
  show "for_loop 0 w (body i) t = Ok (t[nat i := map (\<lambda>j. G i (int j)) [0..<nat w]])"
  proof (rule row_loop)
    show "0 \<le> i" by (rule i)
    show "nat i < length t" using il lt by simp
    show "length (t ! nat i) = nat w" using rows [OF il] ti by simp
  next
    fix j u assume "0 \<le> j" "j < w" "length u = length t" "length (u ! nat i) = nat w"
      "u ! nat i ! nat j = t ! nat i ! nat j"
    then show "body i j u = Ok (u[nat i := (u ! nat i)[nat j := G i j]])"
      using body [of i j u] i lt ti by simp
  qed
qed

lemma map_map_nth:
  assumes "length d = n" and "\<And>i. i < length d \<Longrightarrow> length (d ! i) = m"
  shows "map (\<lambda>i. map (\<lambda>j. f (d ! i ! j)) [0..<m]) [0..<n] = map (map f) d"
  using assms by (auto intro!: nth_equalityI)

lemma pixel_loop:
  assumes "rectangular pbm"
  shows "for_loop 0 (height pbm) (\<lambda>i. for_loop 0 (width pbm) (\<lambda>j d.
           bind (load2 d i j) (\<lambda>v. store2 d i j (f v)))) (data pbm) = Ok (map (map f) (data pbm))"
proof (cases "0 < width pbm \<and> 0 < height pbm")
  case True
  with assms have r: "rect (height pbm) (width pbm) (data pbm)" by (simp add: rectangular_def)
  then have len: "length (data pbm) = nat (height pbm)" by (simp add: rect_def)
  have rows: "\<And>i. i < length (data pbm) \<Longrightarrow> length (data pbm ! i) = nat (width pbm)"
    using r by (rule rect_nth)
  have "for_loop 0 (height pbm) (\<lambda>i. for_loop 0 (width pbm) (\<lambda>j d.
           bind (load2 d i j) (\<lambda>v. store2 d i j (f v)))) (data pbm) =
        Ok (map (\<lambda>i. map (\<lambda>j. f (data pbm ! nat (int i) ! nat (int j))) [0..<nat (width pbm)])
              [0..<nat (height pbm)])"
  proof (rule grid_loop [OF len rows])
    fix i j t
    assume "0 \<le> i" "i < height pbm" "0 \<le> j" "j < width pbm" "length t = length (data pbm)"
      "length (t ! nat i) = nat (width pbm)" "t ! nat i ! nat j = data pbm ! nat i ! nat j"
    then show "bind (load2 t i j) (\<lambda>v. store2 t i j (f v)) =
               Ok (t[nat i := (t ! nat i)[nat j := f (data pbm ! nat i ! nat j)]])"
      using len by (simp add: load2_Ok store2_Ok)
  qed
  then show ?thesis using map_map_nth [OF len rows, of f] by simp
next
  case False
  with assms have e: "data pbm = []" by (simp add: rectangular_def)
  show ?thesis
  proof (cases "0 < height pbm")
    case h: True
    with False have "\<not> 0 < width pbm" by simp
    then have "\<And>i t. for_loop 0 (width pbm) (\<lambda>j d. bind (load2 d i j) (\<lambda>v. store2 d i j (f v))) t = Ok t"
      by (simp add: for_loop_done)
    then show ?thesis by (simp add: for_loop_skip e)
  next
    case False
    then show ?thesis by (simp add: for_loop_done e)
  qed
qed

subsection \<open>Steps of the scanner\<close>

text \<open>The first \<open>Scan\<close> reads up to 4096 bytes; a line that the buffer holds is returned
  without a read; at the end of the file \<open>Scan\<close> returns false and \<open>Err()\<close> is nil.\<close>

lemma Scan_first:
  "file \<noteq> [] \<Longrightarrow>
   Scan (NewScanner file) = Scan \<lparr>src = drop 4096 file, buf = take 4096 file, start = 0, cap = 4096, err = None\<rparr>"
  by (subst Scan.simps)
     (simp add: NewScanner_def shift_def grow_def fill_def bufEnd_def maxTokenSize_def startBufSize_def
        Let_def min_def)

lemma Scan_line:
  "IndexByte (buf s) (CHR 0x0A) = Some i \<Longrightarrow>
   Scan s = (True, dropCR (take i (buf s)), s\<lparr>buf := drop (i + 1) (buf s), start := start s + (i + 1)\<rparr>)"
  by (subst Scan.simps) (auto simp: ScanLines_def)

lemma Scan_eof:
  assumes "buf s = []" and "src s = []" and "err s = None" and "0 < cap s"
  shows "Scan s = (False, [], s\<lparr>start := 0, err := Some EOF\<rparr>)"
proof -
  define s1 where "s1 = shift s"
  have s1: "buf s1 = []" "src s1 = []" "err s1 = None" "cap s1 = cap s"
    using assms by (simp_all add: s1_def shift_def)
  have lt: "bufEnd s1 < cap s1"
    using assms by (auto simp: s1_def shift_def bufEnd_def)
  have g: "grow s1 = Some s1" using lt by (simp add: grow_def)
  have f: "fill s1 = s1\<lparr>err := Some EOF\<rparr>" using s1 lt by (simp add: fill_def)
  have "Scan s = Scan (fill s1)"
    using assms g by (subst Scan.simps) (simp add: s1_def)
  also have "\<dots> = (False, [], s1\<lparr>err := Some EOF, start := 0, buf := []\<rparr>)"
    by (subst Scan.simps) (simp add: f s1 ScanLines_def)
  also have "s1\<lparr>err := Some EOF, start := 0, buf := []\<rparr> = s\<lparr>start := 0, err := Some EOF\<rparr>"
    using assms by (simp add: s1_def shift_def)
  finally show ?thesis .
qed

lemma Scan_after_eof:
  "buf s = [] \<Longrightarrow> err s = Some e \<Longrightarrow> Scan s = (False, [], s\<lparr>start := 0\<rparr>)"
  by (subst Scan.simps) (simp add: ScanLines_def)

lemma Scan_line':
  "IndexByte (buf s) (CHR 0x0A) \<noteq> None \<Longrightarrow>
   Scan s = (True, dropCR (take (the (IndexByte (buf s) (CHR 0x0A))) (buf s)),
             s\<lparr>buf := drop (the (IndexByte (buf s) (CHR 0x0A)) + 1) (buf s),
               start := start s + (the (IndexByte (buf s) (CHR 0x0A)) + 1)\<rparr>)"
  using Scan_line [of s] by auto

lemma readNextLine_unfold:
  "readNextLine s =
     (if fst (Scan s) then
        (if TrimSpace (fst (snd (Scan s))) \<noteq> [] \<and> \<not> HasPrefix (TrimSpace (fst (snd (Scan s)))) ''#''
         then (TrimSpace (fst (snd (Scan s))), None, snd (snd (Scan s)))
         else readNextLine (snd (snd (Scan s))))
      else ([], Scanner_Err (snd (snd (Scan s))), snd (snd (Scan s))))"
  by (subst readNextLine.simps) (auto split: prod.splits)

lemmas text_eval = asciiSpace_def TrimSpace_def TrimLeft.simps TrimLast.simps Fields_def HasPrefix_def
  spaceWidth.simps spaceWidthLast.simps dropCR_def Atoi_def isDigit_def digitVal_def
lemmas scan_eval = Scan_first Scan_line' Scan_eof Scan_after_eof readNextLine_unfold Scanner_Err_def
lemmas loop_eval = for_loop_step for_loop_done index_def load2_def store2_def make_data_def maxAlloc_def


subsection \<open>Invert\<close>

lemma invert_pixel_uint:
  fixes p :: byte
  assumes "uint p \<le> m" and "m \<le> 255"
  shows "uint (word_of_int m - p) = m - uint p"
proof -
  have "0 \<le> m - uint p" using assms by simp
  moreover have "m - uint p < 256" using assms uint_nonnegative [of p] by linarith
  ultimately have "(m - uint p) mod 256 = m - uint p" by simp
  moreover have "uint (word_of_int m - p) = (m - uint p) mod 256"
    by (simp add: uint_word_ariths uint_word_of_int mod_diff_left_eq)
  ultimately show ?thesis by simp
qed

text \<open>
  Claim C6. \<open>Invert\<close> of a greyscale image replaces every pixel \<open>p\<close> by \<open>uint8(max) - p\<close>,
  with the \<open>max\<close> the image holds at the call, and leaves the dimensions, the magic number
  and \<open>max\<close> as they are; two calls in a row, \<open>max\<close> unchanged between them, give the image
  back. The subtraction is the one of \<open>uint8\<close>: where \<open>p \<le> max \<le> 255\<close> it is the integer
  \<open>max - p\<close> (lemma \<open>invert_pixel_uint\<close>).
\<close>

theorem PGM_Invert_involution:
  assumes "rectangular pgm"
  shows "PGM_Invert pgm =
           Ok (pgm\<lparr>data := map (map (\<lambda>p. word_of_int (max_value pgm) - p)) (data pgm)\<rparr>)
         \<and> bind (PGM_Invert pgm) PGM_Invert = Ok pgm"
proof -
  let ?f = "\<lambda>p :: byte. word_of_int (max_value pgm) - p"
  let ?pgm' = "pgm\<lparr>data := map (map ?f) (data pgm)\<rparr>"
  have 1: "PGM_Invert pgm = Ok ?pgm'"
    by (simp add: PGM_Invert_def pixel_loop [OF assms])
  have r: "rectangular ?pgm'"
    using assms by (auto simp: rectangular_def rect_def list_all_iff split: if_splits)
  have "PGM_Invert ?pgm' = Ok (?pgm'\<lparr>data := map (map ?f) (data ?pgm')\<rparr>)"
    using pixel_loop [OF r, of ?f] by (simp add: PGM_Invert_def)
  moreover have "map (map ?f) (data ?pgm') = data pgm"
    by (simp add: comp_def)
  ultimately have "PGM_Invert ?pgm' = Ok pgm" by simp
  with 1 show ?thesis by simp
qed

theorem PGM_Invert_involution_witness:
  "rectangular \<lparr>data = [[10, 20], [30, 200 :: byte]], width = 2, height = 2,
                magicNumber = ''P2'', max_value = 100\<rparr>
   \<and> PGM_Invert \<lparr>data = [[10, 20], [30, 200]], width = 2, height = 2,
                  magicNumber = ''P2'', max_value = 100\<rparr>
     = Ok \<lparr>data = [[90, 80], [70, 156]], width = 2, height = 2,
           magicNumber = ''P2'', max_value = 100\<rparr>
   \<and> bind (PGM_Invert \<lparr>data = [[10, 20], [30, 200]], width = 2, height = 2,
                        magicNumber = ''P2'', max_value = 100\<rparr>) PGM_Invert
     = Ok \<lparr>data = [[10, 20], [30, 200]], width = 2, height = 2,
           magicNumber = ''P2'', max_value = 100\<rparr>"
proof -
  have r: "rectangular \<lparr>data = [[10, 20], [30, 200 :: byte]], width = 2, height = 2,
                       magicNumber = ''P2'', max_value = 100\<rparr>"
    by (simp add: rectangular_def rect_def)
  note t = PGM_Invert_involution [OF r]
  from t [THEN conjunct1]
  have a: "PGM_Invert \<lparr>data = [[10, 20], [30, 200]], width = 2, height = 2,
                         magicNumber = ''P2'', max_value = 100\<rparr>
           = Ok \<lparr>data = [[90, 80], [70, 156]], width = 2, height = 2,
                 magicNumber = ''P2'', max_value = 100\<rparr>"
    by simp
  from r a t [THEN conjunct2] show ?thesis by (intro conjI)
qed

subsection \<open>The readers on given files\<close>

lemma IndexByte_replicate:
  "x \<noteq> c \<Longrightarrow> IndexByte (replicate n x @ ys) c = map_option (\<lambda>i. n + i) (IndexByte ys c)"
  by (induction n) (cases "IndexByte ys c"; simp)+

lemmas reader_eval = ReadPBM_def ReadPBM_int_def ReadPGM_def os_Open_def readPBM_def
  ascii_body_def ascii_row_def P4_body_def P4_row_def P4_pixel_def P5_body_def P5_pixel_def
  file_Read_def maxRW_def bytesPerRow_def smod_nonneg sdiv_nonneg disk_def padded_def IndexByte_replicate
  scan_eval text_eval loop_eval

text \<open>
  Claim C10. The ASCII readers are not total: there are P1 and P2 files with a positive
  width and height and a pixel line of more numeric tokens than the width, on which the
  reader stores at index \<open>j = width\<close> of a row of \<open>width\<close> pixels; the Go runtime aborts
  the call with "index out of range [1] with length 1" and no error is returned. Here
  the image is 1 by 1 and its line has two tokens; all three readers panic.
\<close>

theorem ascii_row_overflow_panics:
  "ReadPBM (disk ''P1\<newline>1 1\<newline>1 1\<newline>'') ''image'' = Panic (IndexOutOfRange 1 1)
   \<and> ReadPBM_int (disk ''P1\<newline>1 1\<newline>1 1\<newline>'') ''image'' = Panic (IndexOutOfRange 1 1)
   \<and> ReadPGM (disk ''P2\<newline>1 1\<newline>255\<newline>7 8\<newline>'') ''image'' = Panic (IndexOutOfRange 1 1)"
  by (simp add: reader_eval)

text \<open>
  Claim C2 says that a body that ends before the declared geometry is satisfied makes the
  reader fail. The readers do fail when a \<open>file.Read\<close> finds no byte at all (\<open>io.EOF\<close>),
  but not otherwise: \<open>readNextLine\<close> returns \<open>"", scanner.Err()\<close> at the end of the file,
  and \<open>Err()\<close> is nil there, so a missing ASCII row is read as an empty line; and the number
  of bytes \<open>file.Read\<close> returns is dropped, so a short read is taken for a full one. A
  2 by 2 image with one ASCII row of two, or with three bytes of four, is returned with
  the missing pixels zero.
\<close>

theorem truncated_body_is_accepted:
  "ReadPBM (disk ''P1\<newline>2 2\<newline>1 1\<newline>'') ''image''
     = Ok \<lparr>data = [[True, True], [False, False]], width = 2, height = 2, magicNumber = ''P1''\<rparr>
   \<and> ReadPGM (disk ''P2\<newline>2 2\<newline>255\<newline>7 8\<newline>'') ''image''
     = Ok \<lparr>data = [[7, 8], [0, 0]], width = 2, height = 2, magicNumber = ''P2'', max_value = 255\<rparr>
   \<and> ReadPGM (disk (padded ''P5'' ''2 2\<newline>255\<newline>'' @ [CHR 10, CHR 20, CHR 30])) ''image''
     = Ok \<lparr>data = [[10, 20], [30, 0]], width = 2, height = 2, magicNumber = ''P5'', max_value = 255\<rparr>"
  by (simp add: reader_eval) (simp add: numeral_2_eq_2)

subsection \<open>The kinds of error\<close>

lemma fill_errors: "err s = None \<Longrightarrow> io_errors (err (fill s))"
  by (simp add: fill_def Let_def io_errors_def)

lemma Scan_errors: "io_errors (err s) \<Longrightarrow> io_errors (err (snd (snd (Scan s))))"
proof (induction s rule: Scan.induct)
  case (1 s)
  show ?case
  proof (cases "if buf s = [] \<and> err s = None then (0, None) else ScanLines (buf s) (err s \<noteq> None)")
    case (Pair advance tok)
    show ?thesis
    proof (cases tok)
      case (Some t)
      with Pair "1.prems" show ?thesis by (subst Scan.simps) simp
    next
      case None
      show ?thesis
      proof (cases "err s \<noteq> None")
        case True
        with Pair None "1.prems" show ?thesis by (subst Scan.simps) auto
      next
        case False
        show ?thesis
        proof (cases "grow (shift s)")
          case gn: None
          with Pair None False show ?thesis by (subst Scan.simps) (simp add: io_errors_def)
        next
          case (Some s1)
          then have "err s1 = err s" by (auto simp: grow_def shift_def split: if_splits)
          with False have "io_errors (err (fill s1))" by (simp add: fill_errors)
          with "1.IH" Pair None False Some have "io_errors (err (snd (snd (Scan (fill s1)))))" by simp
          moreover from Pair None False Some have "Scan s = Scan (fill s1)"
            by (subst Scan.simps) simp
          ultimately show ?thesis by simp
        qed
      qed
    qed
  qed
qed

lemma readNextLine_errors:
  "io_errors (err s) \<Longrightarrow> readNextLine s = (line, e, s') \<Longrightarrow>
   io_errors (err s') \<and> (e = None \<or> e = Some ErrNoProgress \<or> e = Some ErrTooLong)"
proof (induction s rule: readNextLine.induct)
  case (1 s)
  obtain ok token s1 where sc: "Scan s = (ok, token, s1)" by (metis prod.exhaust)
  from Scan_errors [OF "1.prems"(1)] sc have e1: "io_errors (err s1)" by simp
  show ?case
  proof (cases ok)
    case False
    with sc "1.prems"(2) have "line = []" "e = Scanner_Err s1" "s' = s1"
      by (auto simp: readNextLine.simps [of s])
    with e1 show ?thesis by (auto simp: Scanner_Err_def io_errors_def)
  next
    case True
    show ?thesis
    proof (cases "TrimSpace token \<noteq> [] \<and> \<not> HasPrefix (TrimSpace token) ''#''")
      case t: True
      with sc True "1.prems"(2) have "e = None" "s' = s1"
        by (auto simp: readNextLine.simps [of s])
      with e1 show ?thesis by simp
    next
      case f: False
      with sc True "1.prems"(2) have "readNextLine s1 = (line, e, s')"
        by (simp add: readNextLine.simps [of s])
      with "1.IH" sc True f e1 show ?thesis by simp
    qed
  qed
qed

lemma for_loop_Err:
  assumes "I s" and "\<And>k t t'. I t \<Longrightarrow> body k t = Ok t' \<Longrightarrow> I t'"
    and "\<And>k t e. I t \<Longrightarrow> body k t = Err e \<Longrightarrow> P e"
    and "for_loop i n body s = Err e"
  shows "P e"
  using assms
proof (induction i n body s rule: for_loop.induct)
  case (1 i n body s)
  show ?case
  proof (cases "i < n")
    case False
    with "1.prems"(4) show ?thesis by (simp add: for_loop_done)
  next
    case True
    show ?thesis
    proof (cases "body i s")
      case (Ok s1)
      with True "1.prems"(4) have "for_loop (i + 1) n body s1 = Err e" by (simp add: for_loop_step)
      moreover have "I s1" using "1.prems"(1,2) Ok by blast
      ultimately show ?thesis using "1.IH" [OF True Ok] "1.prems"(2,3) by blast
    next
      case (Err e')
      with True "1.prems"(4) have "e' = e" by (simp add: for_loop_step)
      with Err "1.prems"(1,3) show ?thesis by blast
    next
      case (Panic p)
      with True "1.prems"(4) show ?thesis by (simp add: for_loop_step)
    qed
  qed
qed

lemma index_no_Err: "index xs i \<noteq> Err e"
  by (simp add: index_def)

lemma store2_no_Err: "store2 d i j v \<noteq> Err e"
  by (cases "index d i") (simp_all add: store2_def index_no_Err)

lemma make_data_no_Err: "make_data esz h w z \<noteq> Err e"
  by (simp add: make_data_def)

lemma Atoi_errors: "Atoi t = (v, Some e) \<Longrightarrow> e = ErrSyntax \<or> e = ErrRange"
  by (auto simp: Atoi_def Let_def split: list.splits sum.splits if_splits)

lemma range_tokens_errors:
  "range_tokens conv i j toks d = Err e \<Longrightarrow> e = ErrSyntax \<or> e = ErrRange"
proof (induction toks arbitrary: j d)
  case Nil
  then show ?case by simp
next
  case (Cons t toks)
  obtain v a where at: "Atoi t = (v, a)" by (metis prod.exhaust)
  show ?case
  proof (cases a)
    case (Some e')
    with at Cons.prems have "e' = e" by simp
    with at Some show ?thesis by (auto dest: Atoi_errors)
  next
    case None
    show ?thesis
    proof (cases "store2 d i j (conv v)")
      case (Ok d1)
      with at None Cons.prems have "range_tokens conv i (j + 1) toks d1 = Err e" by simp
      then show ?thesis by (rule Cons.IH)
    next
      case (Err e')
      then show ?thesis by (simp add: store2_no_Err)
    next
      case (Panic p)
      with at None Cons.prems show ?thesis by simp
    qed
  qed
qed

lemma ascii_row_errors:
  assumes "io_errors (err (snd st))"
  shows "ascii_row conv i st = Ok st' \<Longrightarrow> io_errors (err (snd st'))"
    and "ascii_row conv i st = Err e \<Longrightarrow> e \<noteq> InvalidDimensions"
proof -
  obtain line a sc where r: "readNextLine (snd st) = (line, a, sc)" by (metis prod.exhaust)
  note n = readNextLine_errors [OF assms r]
  show "io_errors (err (snd st'))" if "ascii_row conv i st = Ok st'"
    using that r n by (cases a) (auto simp: ascii_row_def bind_eq_Ok)
  show "e \<noteq> InvalidDimensions" if "ascii_row conv i st = Err e"
  proof (cases a)
    case (Some e')
    with that r have "e' = e" by (simp add: ascii_row_def)
    with Some n show ?thesis by auto
  next
    case None
    with that r have "range_tokens conv i 0 (Fields line) (fst st) = Err e"
      by (cases "range_tokens conv i 0 (Fields line) (fst st)") (simp_all add: ascii_row_def)
    from range_tokens_errors [OF this] show ?thesis by auto
  qed
qed

lemma ascii_body_errors:
  assumes "io_errors (err sc)" and "ascii_body conv h d sc = Err e"
  shows "e \<noteq> InvalidDimensions"
proof (rule for_loop_Err [where I = "\<lambda>st. io_errors (err (snd st))" and P = "\<lambda>e. e \<noteq> InvalidDimensions"])
  show "io_errors (err (snd (d, sc)))" using assms(1) by simp
  show "for_loop 0 h (ascii_row conv) (d, sc) = Err e" using assms(2) by (simp add: ascii_body_def)
qed (auto dest: ascii_row_errors)

lemma P4_pixel_no_Err: "P4_pixel conv buffer i j d \<noteq> Err e"
  by (cases "index buffer (j sdiv 8)") (simp_all add: P4_pixel_def Let_def index_no_Err store2_no_Err)

lemma P5_pixel_no_Err: "P5_pixel buffer w i j d \<noteq> Err e"
  by (cases "index buffer (i * w + j)") (simp_all add: P5_pixel_def index_no_Err store2_no_Err)

lemma file_Read_errors: "file_Read file p = ((n, Some e), p', file') \<Longrightarrow> e = EOF"
  by (auto simp: file_Read_def Let_def split: if_splits)

lemma P4_row_errors: "P4_row conv w i st = Err e \<Longrightarrow> e = EOF"
proof -
  assume a: "P4_row conv w i st = Err e"
  obtain d buffer sc where st: "st = (d, buffer, sc)" by (cases st)
  obtain n a' buffer' file' where r: "file_Read (src sc) buffer = ((n, a'), buffer', file')"
    by (metis prod.exhaust)
  show ?thesis
  proof (cases a')
    case (Some e')
    with a st r have "e' = e" by (simp add: P4_row_def)
    with r Some show ?thesis by (auto dest: file_Read_errors)
  next
    case None
    with a st r have "for_loop 0 w (P4_pixel conv buffer' i) d = Err e"
      by (cases "for_loop 0 w (P4_pixel conv buffer' i) d") (simp_all add: P4_row_def)
    from for_loop_Err [where I = "\<lambda>t. True" and P = "\<lambda>e. False", OF _ _ _ this]
    show ?thesis by (simp add: P4_pixel_no_Err)
  qed
qed

lemma P4_body_errors: "P4_body conv w h d sc = Err e \<Longrightarrow> e = EOF"
  unfolding P4_body_def
  by (rule for_loop_Err [where I = "\<lambda>t. True" and P = "\<lambda>e. e = EOF"]) (auto dest: P4_row_errors)

lemma P5_body_errors: "P5_body w h d sc = Err e \<Longrightarrow> e = EOF"
proof -
  assume a: "P5_body w h d sc = Err e"
  obtain n a' buffer file' where r: "file_Read (src sc) (replicate (nat (w * h)) 0) = ((n, a'), buffer, file')"
    by (metis prod.exhaust)
  show ?thesis
  proof (cases a')
    case (Some e')
    with a r have "e' = e" by (simp add: P5_body_def)
    with r Some show ?thesis by (auto dest: file_Read_errors)
  next
    case None
    let ?loop = "for_loop 0 h (\<lambda>i. for_loop 0 w (P5_pixel buffer w i)) d"
    from a r None have l: "?loop = Err e" by (cases ?loop) (simp_all add: P5_body_def)
    have "False"
    proof (rule for_loop_Err [where I = "\<lambda>t. True" and P = "\<lambda>e. False", OF _ _ _ l])
      fix k t e'
      assume "for_loop 0 w (P5_pixel buffer w k) t = Err e'"
      from for_loop_Err [where I = "\<lambda>t. True" and P = "\<lambda>e. False", OF _ _ _ this]
      show False by (simp add: P5_pixel_no_Err)
    qed simp_all
    then show ?thesis ..
  qed
qed

lemma bind_eq_Err: "bind m f = Err e \<longleftrightarrow> m = Err e \<or> (\<exists>v. m = Ok v \<and> f v = Err e)"
  by (cases m) simp_all

lemma NewScanner_errors: "io_errors (err (NewScanner file))"
  by (simp add: NewScanner_def io_errors_def)

lemma readPBM_dimension_line:
  assumes l1: "readNextLine (NewScanner file) = (magic, None, sc1)"
    and l2: "readNextLine sc1 = (dimensions, None, sc2)"
    and m: "magic = ''P1'' \<or> magic = ''P4''"
  shows "readPBM esz z ofInt ofBit file = Err InvalidDimensions \<longleftrightarrow> length (Fields dimensions) \<noteq> 2"
    and "Fields dimensions = [a, b] \<Longrightarrow> readPBM esz z ofInt ofBit file = Ok g \<Longrightarrow>
           width g = fst (Atoi a) \<and> height g = fst (Atoi b)"
    and "Fields dimensions = [a, b] \<Longrightarrow> \<not> (0 < fst (Atoi a) \<and> 0 < fst (Atoi b)) \<Longrightarrow>
           readPBM esz z ofInt ofBit file
             = Ok \<lparr>data = [], width = fst (Atoi a), height = fst (Atoi b), magicNumber = magic\<rparr>"
proof -
  note e1 = readNextLine_errors [OF NewScanner_errors l1, THEN conjunct1]
  note e2 = readNextLine_errors [OF e1 l2, THEN conjunct1]
  have two: "readPBM esz z ofInt ofBit file =
      (if 0 < fst (Atoi a) \<and> 0 < fst (Atoi b) then
         bind (make_data esz (fst (Atoi b)) (fst (Atoi a)) z) (\<lambda>d.
           if magic = ''P1'' then
             bind (ascii_body ofInt (fst (Atoi b)) d sc2) (\<lambda>(d, sc).
               Ok \<lparr>data = d, width = fst (Atoi a), height = fst (Atoi b), magicNumber = magic\<rparr>)
           else
             bind (P4_body ofBit (fst (Atoi a)) (fst (Atoi b)) d sc2) (\<lambda>(d, buffer, sc).
               Ok \<lparr>data = d, width = fst (Atoi a), height = fst (Atoi b), magicNumber = magic\<rparr>))
       else Ok \<lparr>data = [], width = fst (Atoi a), height = fst (Atoi b), magicNumber = magic\<rparr>)"
    if "Fields dimensions = [a, b]" for a b
    using l1 l2 m that by (auto simp: readPBM_def Let_def)
  have k: "(if magic = ''P1'' then
             bind (ascii_body ofInt h d sc2) (\<lambda>(d, sc).
               Ok \<lparr>data = d, width = w, height = h, magicNumber = magic\<rparr>)
           else
             bind (P4_body ofBit w h d sc2) (\<lambda>(d, buffer, sc).
               Ok \<lparr>data = d, width = w, height = h, magicNumber = magic\<rparr>))
          \<noteq> Err InvalidDimensions" for w h d
  proof (cases "magic = ''P1''")
    case True
    have "ascii_body ofInt h d sc2 \<noteq> Err InvalidDimensions"
      using ascii_body_errors [OF e2] by blast
    with True show ?thesis by (auto simp: bind_eq_Err)
  next
    case False
    have "P4_body ofBit w h d sc2 \<noteq> Err InvalidDimensions"
      using P4_body_errors [of ofBit w h d sc2 InvalidDimensions] by auto
    with False show ?thesis by (auto simp: bind_eq_Err)
  qed
  have no: "readPBM esz z ofInt ofBit file \<noteq> Err InvalidDimensions" if f: "Fields dimensions = [a, b]" for a b
    unfolding two [OF f] using k by (simp add: bind_eq_Err make_data_no_Err)
  show "readPBM esz z ofInt ofBit file = Err InvalidDimensions \<longleftrightarrow> length (Fields dimensions) \<noteq> 2"
  proof
    assume a: "readPBM esz z ofInt ofBit file = Err InvalidDimensions"
    show "length (Fields dimensions) \<noteq> 2"
    proof
      assume "length (Fields dimensions) = 2"
      then obtain a b where "Fields dimensions = [a, b]"
        by (metis (no_types) length_0_conv length_Suc_conv numeral_2_eq_2)
      from no [OF this] a show False ..
    qed
  next
    assume "length (Fields dimensions) \<noteq> 2"
    with l1 l2 m show "readPBM esz z ofInt ofBit file = Err InvalidDimensions"
      by (auto simp: readPBM_def)
  qed
  show "width g = fst (Atoi a) \<and> height g = fst (Atoi b)"
    if "Fields dimensions = [a, b]" and "readPBM esz z ofInt ofBit file = Ok g"
    using that(2) unfolding two [OF that(1)]
    by (auto simp: bind_eq_Ok split: if_splits)
  show "readPBM esz z ofInt ofBit file
      = Ok \<lparr>data = [], width = fst (Atoi a), height = fst (Atoi b), magicNumber = magic\<rparr>"
    if "Fields dimensions = [a, b]" and "\<not> (0 < fst (Atoi a) \<and> 0 < fst (Atoi b))"
    using that(2) unfolding two [OF that(1)] by auto
qed

lemma ReadPGM_dimension_line:
  assumes o: "os_Open fs filename = Inr file"
    and l1: "readNextLine (NewScanner file) = (magic, None, sc1)"
    and l2: "readNextLine sc1 = (dimensions, None, sc2)"
    and m: "magic = ''P2'' \<or> magic = ''P5''"
  shows "ReadPGM fs filename = Err InvalidDimensions \<longleftrightarrow> length (Fields dimensions) \<noteq> 2"
    and "Fields dimensions = [a, b] \<Longrightarrow> ReadPGM fs filename = Ok g \<Longrightarrow>
           width g = fst (Atoi a) \<and> height g = fst (Atoi b)"
    and "Fields dimensions = [a, b] \<Longrightarrow> \<not> (0 < fst (Atoi a) \<and> 0 < fst (Atoi b)) \<Longrightarrow>
           readNextLine sc2 = (maxValueStr, None, sc3) \<Longrightarrow> Atoi maxValueStr = (maxValue, None) \<Longrightarrow>
           ReadPGM fs filename
             = Ok \<lparr>data = [], width = fst (Atoi a), height = fst (Atoi b), magicNumber = magic,
                   max_value = maxValue\<rparr>"
proof -
  note e1 = readNextLine_errors [OF NewScanner_errors l1, THEN conjunct1]
  note e2 = readNextLine_errors [OF e1 l2, THEN conjunct1]
  obtain mline me sc3' where l3: "readNextLine sc2 = (mline, me, sc3')" by (metis prod.exhaust)
  note e3 = readNextLine_errors [OF e2 l3]
  obtain mv ma where at: "Atoi mline = (mv, ma)" by (metis prod.exhaust)
  have two: "ReadPGM fs filename =
      (case me of Some e \<Rightarrow> Err e
       | None \<Rightarrow>
         (case ma of Some e \<Rightarrow> Err InvalidMaxValue
          | None \<Rightarrow>
            if 0 < fst (Atoi a) \<and> 0 < fst (Atoi b) then
              bind (make_data 1 (fst (Atoi b)) (fst (Atoi a)) 0) (\<lambda>d.
                if magic = ''P2'' then
                  bind (ascii_body word_of_int (fst (Atoi b)) d sc3') (\<lambda>(d, sc).
                    Ok \<lparr>data = d, width = fst (Atoi a), height = fst (Atoi b), magicNumber = magic,
                        max_value = mv\<rparr>)
                else
                  bind (P5_body (fst (Atoi a)) (fst (Atoi b)) d sc3') (\<lambda>(d, sc).
                    Ok \<lparr>data = d, width = fst (Atoi a), height = fst (Atoi b), magicNumber = magic,
                        max_value = mv\<rparr>))
            else Ok \<lparr>data = [], width = fst (Atoi a), height = fst (Atoi b), magicNumber = magic,
                      max_value = mv\<rparr>))"
    if "Fields dimensions = [a, b]" for a b
    using o l1 l2 l3 at m that by (auto simp: ReadPGM_def Let_def split: option.splits)
  have k: "(if magic = ''P2'' then
              bind (ascii_body word_of_int h d sc3') (\<lambda>(d, sc).
                Ok \<lparr>data = d, width = w, height = h, magicNumber = magic, max_value = mv\<rparr>)
            else
              bind (P5_body w h d sc3') (\<lambda>(d, sc).
                Ok \<lparr>data = d, width = w, height = h, magicNumber = magic, max_value = mv\<rparr>))
          \<noteq> Err InvalidDimensions" for w h d
  proof (cases "magic = ''P2''")
    case True
    have "ascii_body word_of_int h d sc3' \<noteq> Err InvalidDimensions"
      using ascii_body_errors [OF e3 [THEN conjunct1]] by blast
    with True show ?thesis by (auto simp: bind_eq_Err)
  next
    case False
    have "P5_body w h d sc3' \<noteq> Err InvalidDimensions"
      using P5_body_errors [of w h d sc3' InvalidDimensions] by auto
    with False show ?thesis by (auto simp: bind_eq_Err)
  qed
  have me: "me \<noteq> Some InvalidDimensions" using e3 by auto
  have no: "ReadPGM fs filename \<noteq> Err InvalidDimensions" if f: "Fields dimensions = [a, b]" for a b
    unfolding two [OF f] using k me
    by (cases me; cases ma) (simp_all add: bind_eq_Err make_data_no_Err)
  show "ReadPGM fs filename = Err InvalidDimensions \<longleftrightarrow> length (Fields dimensions) \<noteq> 2"
  proof
    assume a: "ReadPGM fs filename = Err InvalidDimensions"
    show "length (Fields dimensions) \<noteq> 2"
    proof
      assume "length (Fields dimensions) = 2"
      then obtain a b where "Fields dimensions = [a, b]"
        by (metis (no_types) length_0_conv length_Suc_conv numeral_2_eq_2)
      from no [OF this] a show False ..
    qed
  next
    assume "length (Fields dimensions) \<noteq> 2"
    with o l1 l2 m show "ReadPGM fs filename = Err InvalidDimensions"
      by (auto simp: ReadPGM_def)
  qed
  show "width g = fst (Atoi a) \<and> height g = fst (Atoi b)"
    if "Fields dimensions = [a, b]" and "ReadPGM fs filename = Ok g"
    using that(2) unfolding two [OF that(1)]
    by (auto simp: bind_eq_Ok split: if_splits option.splits)
  show "ReadPGM fs filename
      = Ok \<lparr>data = [], width = fst (Atoi a), height = fst (Atoi b), magicNumber = magic,
            max_value = maxValue\<rparr>"
    if "Fields dimensions = [a, b]" and "\<not> (0 < fst (Atoi a) \<and> 0 < fst (Atoi b))"
      and "readNextLine sc2 = (maxValueStr, None, sc3)" and "Atoi maxValueStr = (maxValue, None)"
    using that(2-4) l3 at unfolding two [OF that(1)] by auto
qed

subsection \<open>The header\<close>

text \<open>
  Claim C3 says that a dimension line is rejected unless it is two tokens that parse as
  non-negative integers. The readers count the tokens and nothing else: both results of
  \<open>strconv.Atoi\<close> are taken with the error dropped (\<open>width, _ := strconv.Atoi(...)\<close>), and
  no sign is tested. The line \<open>abc -5\<close> is accepted, as width 0 and height -5.
\<close>

theorem dimension_tokens_not_validated:
  "ReadPBM (disk ''P1\<newline>abc -5\<newline>'') ''image''
     = Ok \<lparr>data = [], width = 0, height = - 5, magicNumber = ''P1''\<rparr>
   \<and> ReadPBM (disk ''P1\<newline>abc -5\<newline>'') ''image'' \<noteq> Err InvalidDimensions
   \<and> ReadPGM (disk ''P2\<newline>-3 x\<newline>255\<newline>'') ''image''
     = Ok \<lparr>data = [], width = - 3, height = 0, magicNumber = ''P2'', max_value = 255\<rparr>"
  by (simp add: reader_eval)

text \<open>
  Claim C3 as amended. Take a decode that gets to the dimension line: the file opens, the
  reader has read the line of the magic number and the magic number is one of its two,
  and it has read the dimension line, the scanner reporting no error (it reports one for
  a line of 64 KiB or more; a missing dimension line is read as the empty line). Then the
  reader fails with "invalid image dimensions" if and only if the dimension line does not
  consist of exactly two tokens. The two tokens are not validated: in every image the
  reader returns, width and height are the values \<open>strconv.Atoi\<close> returns for them, 0 for
  a token that is no decimal integer and the negative value for a negative one, and when
  they are not both positive the reader returns an image without rows (\<open>ReadPGM\<close>: once
  the line of the maximum parses).
\<close>

theorem dimension_line_two_tokens:
  assumes "os_Open fs filename = Inr file"
    and "readNextLine (NewScanner file) = (magic, None, sc1)"
    and "readNextLine sc1 = (dimensions, None, sc2)"
  shows "(magic = ''P1'' \<or> magic = ''P4'' \<longrightarrow>
           (ReadPBM fs filename = Err InvalidDimensions \<longleftrightarrow> length (Fields dimensions) \<noteq> 2)
           \<and> (ReadPBM_int fs filename = Err InvalidDimensions \<longleftrightarrow> length (Fields dimensions) \<noteq> 2)
           \<and> (\<forall>a b. Fields dimensions = [a, b] \<longrightarrow>
                (\<forall>g. ReadPBM fs filename = Ok g \<longrightarrow> width g = fst (Atoi a) \<and> height g = fst (Atoi b))
                \<and> (\<forall>g. ReadPBM_int fs filename = Ok g \<longrightarrow>
                      width g = fst (Atoi a) \<and> height g = fst (Atoi b))
                \<and> (\<not> (0 < fst (Atoi a) \<and> 0 < fst (Atoi b)) \<longrightarrow>
                     ReadPBM fs filename
                       = Ok \<lparr>data = [], width = fst (Atoi a), height = fst (Atoi b), magicNumber = magic\<rparr>
                     \<and> ReadPBM_int fs filename
                       = Ok \<lparr>data = [], width = fst (Atoi a), height = fst (Atoi b), magicNumber = magic\<rparr>)))
       \<and> (magic = ''P2'' \<or> magic = ''P5'' \<longrightarrow>
           (ReadPGM fs filename = Err InvalidDimensions \<longleftrightarrow> length (Fields dimensions) \<noteq> 2)
           \<and> (\<forall>a b. Fields dimensions = [a, b] \<longrightarrow>
                (\<forall>g. ReadPGM fs filename = Ok g \<longrightarrow> width g = fst (Atoi a) \<and> height g = fst (Atoi b))
                \<and> (\<forall>maxValueStr maxValue sc3.
                     \<not> (0 < fst (Atoi a) \<and> 0 < fst (Atoi b)) \<longrightarrow>
                     readNextLine sc2 = (maxValueStr, None, sc3) \<longrightarrow> Atoi maxValueStr = (maxValue, None) \<longrightarrow>
                     ReadPGM fs filename
                       = Ok \<lparr>data = [], width = fst (Atoi a), height = fst (Atoi b), magicNumber = magic,
                             max_value = maxValue\<rparr>)))"
proof (intro conjI impI allI)
  assume m: "magic = ''P1'' \<or> magic = ''P4''"
  note b = readPBM_dimension_line [OF assms(2,3) m]
  from assms(1) b(1) [of 1 False "\<lambda>pixel. pixel = 1" "\<lambda>bit. bit"]
  show "ReadPBM fs filename = Err InvalidDimensions \<longleftrightarrow> length (Fields dimensions) \<noteq> 2"
    by (simp add: ReadPBM_def)
  from assms(1) b(1) [of 8 0 "\<lambda>pixel. pixel" "\<lambda>bit. if bit then 1 else 0"]
  show "ReadPBM_int fs filename = Err InvalidDimensions \<longleftrightarrow> length (Fields dimensions) \<noteq> 2"
    by (simp add: ReadPBM_int_def)
  fix a b' assume f: "Fields dimensions = [a, b']"
  show "width g = fst (Atoi a)" and "height g = fst (Atoi b')" if "ReadPBM fs filename = Ok g" for g
    using b(2) [OF f, of 1 False "\<lambda>pixel. pixel = 1" "\<lambda>bit. bit" g] that assms(1)
    by (simp_all add: ReadPBM_def)
  show "width g = fst (Atoi a)" and "height g = fst (Atoi b')" if "ReadPBM_int fs filename = Ok g" for g
    using b(2) [OF f, of 8 0 "\<lambda>pixel. pixel" "\<lambda>bit. if bit then 1 else 0" g] that assms(1)
    by (simp_all add: ReadPBM_int_def)
  assume n: "\<not> (0 < fst (Atoi a) \<and> 0 < fst (Atoi b'))"
  from assms(1) b(3) [OF f n, of 1 False "\<lambda>pixel. pixel = 1" "\<lambda>bit. bit"]
  show "ReadPBM fs filename
      = Ok \<lparr>data = [], width = fst (Atoi a), height = fst (Atoi b'), magicNumber = magic\<rparr>"
    by (simp add: ReadPBM_def)
  from assms(1) b(3) [OF f n, of 8 0 "\<lambda>pixel. pixel" "\<lambda>bit. if bit then 1 else 0"]
  show "ReadPBM_int fs filename
      = Ok \<lparr>data = [], width = fst (Atoi a), height = fst (Atoi b'), magicNumber = magic\<rparr>"
    by (simp add: ReadPBM_int_def)
next
  assume m: "magic = ''P2'' \<or> magic = ''P5''"
  note b = ReadPGM_dimension_line [OF assms m]
  show "ReadPGM fs filename = Err InvalidDimensions \<longleftrightarrow> length (Fields dimensions) \<noteq> 2"
    by (rule b(1))
  fix a b' assume f: "Fields dimensions = [a, b']"
  show "width g = fst (Atoi a)" and "height g = fst (Atoi b')" if "ReadPGM fs filename = Ok g" for g
    using b(2) [OF f that] by simp_all
  fix maxValueStr maxValue sc3
  assume "\<not> (0 < fst (Atoi a) \<and> 0 < fst (Atoi b'))"
    and "readNextLine sc2 = (maxValueStr, None, sc3)" and "Atoi maxValueStr = (maxValue, None)"
  then show "ReadPGM fs filename
      = Ok \<lparr>data = [], width = fst (Atoi a), height = fst (Atoi b'), magicNumber = magic,
            max_value = maxValue\<rparr>"
    by (rule b(3) [OF f])
qed

theorem dimension_line_two_tokens_witness:
  "ReadPBM (disk ''P1\<newline>2\<newline>'') ''image'' = Err InvalidDimensions
   \<and> ReadPBM (disk ''P1\<newline>7 x\<newline>'') ''image'' \<noteq> Err InvalidDimensions
   \<and> ReadPGM (disk ''P2\<newline>-3 x\<newline>255\<newline>'') ''image''
     = Ok \<lparr>data = [], width = - 3, height = 0, magicNumber = ''P2'', max_value = 255\<rparr>"
proof (intro conjI)
  let ?c = "''P1\<newline>2\<newline>''"
  let ?sc1 = "\<lparr>src = [], buf = ''2\<newline>'', start = 3, cap = 4096, err = None\<rparr>"
  let ?sc2 = "\<lparr>src = [], buf = [], start = 5, cap = 4096, err = None\<rparr>"
  have o: "os_Open (disk ?c) ''image'' = Inr ?c" by (simp add: os_Open_def disk_def)
  have l1: "readNextLine (NewScanner ?c) = (''P1'', None, ?sc1)" by (simp add: scan_eval text_eval)
  have l2: "readNextLine ?sc1 = (''2'', None, ?sc2)" by (simp add: scan_eval text_eval)
  have f: "length (Fields ''2'') \<noteq> 2" by (simp add: text_eval)
  from dimension_line_two_tokens [OF o l1 l2] f
  show "ReadPBM (disk ?c) ''image'' = Err InvalidDimensions" by simp
next
  let ?c = "''P1\<newline>7 x\<newline>''"
  let ?sc1 = "\<lparr>src = [], buf = ''7 x\<newline>'', start = 3, cap = 4096, err = None\<rparr>"
  let ?sc2 = "\<lparr>src = [], buf = [], start = 7, cap = 4096, err = None\<rparr>"
  have o: "os_Open (disk ?c) ''image'' = Inr ?c" by (simp add: os_Open_def disk_def)
  have l1: "readNextLine (NewScanner ?c) = (''P1'', None, ?sc1)" by (simp add: scan_eval text_eval)
  have l2: "readNextLine ?sc1 = (''7 x'', None, ?sc2)" by (simp add: scan_eval text_eval)
  have f: "length (Fields ''7 x'') = 2" by (simp add: text_eval)
  from dimension_line_two_tokens [OF o l1 l2] f
  show "ReadPBM (disk ?c) ''image'' \<noteq> Err InvalidDimensions" by simp
next
  let ?c = "''P2\<newline>-3 x\<newline>255\<newline>''"
  let ?sc1 = "\<lparr>src = [], buf = ''-3 x\<newline>255\<newline>'', start = 3, cap = 4096, err = None\<rparr>"
  let ?sc2 = "\<lparr>src = [], buf = ''255\<newline>'', start = 8, cap = 4096, err = None\<rparr>"
  let ?sc3 = "\<lparr>src = [], buf = [], start = 12, cap = 4096, err = None\<rparr>"
  have o: "os_Open (disk ?c) ''image'' = Inr ?c" by (simp add: os_Open_def disk_def)
  have l1: "readNextLine (NewScanner ?c) = (''P2'', None, ?sc1)" by (simp add: scan_eval text_eval)
  have l2: "readNextLine ?sc1 = (''-3 x'', None, ?sc2)" by (simp add: scan_eval text_eval)
  have l3: "readNextLine ?sc2 = (''255'', None, ?sc3)" by (simp add: scan_eval text_eval)
  have f: "Fields ''-3 x'' = [''-3'', ''x'']" by (simp add: text_eval)
  have a: "Atoi ''-3'' = (- 3, None)" "Atoi ''x'' = (0, Some ErrSyntax)" "Atoi ''255'' = (255, None)"
    by (simp_all add: text_eval)
  from dimension_line_two_tokens [OF o l1 l2] f a l3
  show "ReadPGM (disk ?c) ''image''
      = Ok \<lparr>data = [], width = - 3, height = 0, magicNumber = ''P2'', max_value = 255\<rparr>"
    by simp
qed

text \<open>
  Claim C7. When the first token of the dimension line reads as 0, or the second, the
  reader returns an image with no rows and the declared width and height, for either
  magic number of the reader; the bytes after the header are not looked at, since the
  result depends on nothing but the header lines: \<open>sc2\<close>, the scanner after the dimension
  line, holds the rest of the file and is arbitrary. (For \<open>ReadPGM\<close> the header has the
  line of the maximum, which has to parse.)
\<close>

theorem empty_image_skips_body:
  assumes "os_Open fs filename = Inr file"
    and "readNextLine (NewScanner file) = (magic, None, sc1)"
    and "readNextLine sc1 = (dimensions, None, sc2)"
    and "Fields dimensions = [a, b]"
    and "fst (Atoi a) = 0 \<or> fst (Atoi b) = 0"
  shows "(magic = ''P1'' \<or> magic = ''P4'' \<longrightarrow>
           ReadPBM fs filename
             = Ok \<lparr>data = [], width = fst (Atoi a), height = fst (Atoi b), magicNumber = magic\<rparr>
           \<and> ReadPBM_int fs filename
             = Ok \<lparr>data = [], width = fst (Atoi a), height = fst (Atoi b), magicNumber = magic\<rparr>)
       \<and> (magic = ''P2'' \<or> magic = ''P5'' \<longrightarrow>
           (\<forall>maxValueStr maxValue sc3.
              readNextLine sc2 = (maxValueStr, None, sc3) \<longrightarrow> Atoi maxValueStr = (maxValue, None) \<longrightarrow>
              ReadPGM fs filename
                = Ok \<lparr>data = [], width = fst (Atoi a), height = fst (Atoi b), magicNumber = magic,
                      max_value = maxValue\<rparr>))"
proof (intro conjI impI allI)
  assume "magic = ''P1'' \<or> magic = ''P4''"
  with assms show "ReadPBM fs filename
      = Ok \<lparr>data = [], width = fst (Atoi a), height = fst (Atoi b), magicNumber = magic\<rparr>"
    and "ReadPBM_int fs filename
      = Ok \<lparr>data = [], width = fst (Atoi a), height = fst (Atoi b), magicNumber = magic\<rparr>"
    by (auto simp: ReadPBM_def ReadPBM_int_def readPBM_def)
next
  fix maxValueStr maxValue sc3
  assume "magic = ''P2'' \<or> magic = ''P5''"
    and "readNextLine sc2 = (maxValueStr, None, sc3)" and "Atoi maxValueStr = (maxValue, None)"
  with assms show "ReadPGM fs filename
      = Ok \<lparr>data = [], width = fst (Atoi a), height = fst (Atoi b), magicNumber = magic,
            max_value = maxValue\<rparr>"
    by (auto simp: ReadPGM_def)
qed

theorem empty_image_skips_body_witness:
  "ReadPBM (disk ''P4\<newline>0 7\<newline>1 x 2'') ''image''
     = Ok \<lparr>data = [], width = 0, height = 7, magicNumber = ''P4''\<rparr>
   \<and> ReadPGM (disk ''P2\<newline>3 0\<newline>255\<newline>1 x 2'') ''image''
     = Ok \<lparr>data = [], width = 3, height = 0, magicNumber = ''P2'', max_value = 255\<rparr>"
proof
  let ?c = "''P4\<newline>0 7\<newline>1 x 2''"
  let ?sc1 = "\<lparr>src = [], buf = ''0 7\<newline>1 x 2'', start = 3, cap = 4096, err = None\<rparr>"
  let ?sc2 = "\<lparr>src = [], buf = ''1 x 2'', start = 7, cap = 4096, err = None\<rparr>"
  have o: "os_Open (disk ?c) ''image'' = Inr ?c" by (simp add: os_Open_def disk_def)
  have l1: "readNextLine (NewScanner ?c) = (''P4'', None, ?sc1)" by (simp add: scan_eval text_eval)
  have l2: "readNextLine ?sc1 = (''0 7'', None, ?sc2)" by (simp add: scan_eval text_eval)
  have f: "Fields ''0 7'' = [''0'', ''7'']" by (simp add: text_eval)
  have a: "Atoi ''0'' = (0, None)" "Atoi ''7'' = (7, None)" by (simp_all add: text_eval)
  from a have z: "fst (Atoi ''0'') = 0 \<or> fst (Atoi ''7'') = 0" by simp
  from empty_image_skips_body [OF o l1 l2 f z] a
  show "ReadPBM (disk ?c) ''image'' = Ok \<lparr>data = [], width = 0, height = 7, magicNumber = ''P4''\<rparr>"
    by simp
next
  let ?c = "''P2\<newline>3 0\<newline>255\<newline>1 x 2''"
  let ?sc1 = "\<lparr>src = [], buf = ''3 0\<newline>255\<newline>1 x 2'', start = 3, cap = 4096, err = None\<rparr>"
  let ?sc2 = "\<lparr>src = [], buf = ''255\<newline>1 x 2'', start = 7, cap = 4096, err = None\<rparr>"
  let ?sc3 = "\<lparr>src = [], buf = ''1 x 2'', start = 11, cap = 4096, err = None\<rparr>"
  have o: "os_Open (disk ?c) ''image'' = Inr ?c" by (simp add: os_Open_def disk_def)
  have l1: "readNextLine (NewScanner ?c) = (''P2'', None, ?sc1)" by (simp add: scan_eval text_eval)
  have l2: "readNextLine ?sc1 = (''3 0'', None, ?sc2)" by (simp add: scan_eval text_eval)
  have l3: "readNextLine ?sc2 = (''255'', None, ?sc3)" by (simp add: scan_eval text_eval)
  have f: "Fields ''3 0'' = [''3'', ''0'']" by (simp add: text_eval)
  have a: "Atoi ''3'' = (3, None)" "Atoi ''0'' = (0, None)" "Atoi ''255'' = (255, None)"
    by (simp_all add: text_eval)
  from a have z: "fst (Atoi ''3'') = 0 \<or> fst (Atoi ''0'') = 0" by simp
  from empty_image_skips_body [OF o l1 l2 f z] a l3
  show "ReadPGM (disk ?c) ''image''
      = Ok \<lparr>data = [], width = 3, height = 0, magicNumber = ''P2'', max_value = 255\<rparr>"
    by simp
qed

subsection \<open>The packed bodies\<close>

lemma make_data_Ok:
  assumes "0 < w" and "0 < h" and "h * 24 \<le> maxAlloc" and "h * w * esz \<le> maxAlloc" and "0 < esz"
  shows "make_data esz h w z = Ok (replicate (nat h) (replicate (nat w) z))"
proof -
  have "1 * (w * esz) \<le> h * (w * esz)"
    using assms by (intro mult_right_mono) simp_all
  then have "w * esz \<le> h * w * esz" by (simp add: mult.assoc)
  with assms have "\<not> maxAlloc < w * esz" by linarith
  with assms show ?thesis by (simp add: make_data_def)
qed

lemma flat_index:
  assumes "0 \<le> i" "i < h" "0 \<le> j" "j < w"
  shows "0 \<le> i * w + j" and "i * w + j < w * (h::int)"
proof -
  show "0 \<le> i * w + j" using assms by simp
  have "i * w + j < i * w + w" using assms by simp
  also have "\<dots> = (i + 1) * w" by (simp add: algebra_simps)
  also have "\<dots> \<le> h * w" using assms by (intro mult_right_mono) simp_all
  finally show "i * w + j < w * h" by (simp add: mult.commute)
qed

lemma P5_body_full:
  assumes w: "0 < w" and h: "0 < h" and body: "nat (w * h) \<le> length (src sc)"
    and one: "nat (w * h) \<le> maxRW"
  shows "P5_body w h (replicate (nat h) (replicate (nat w) 0)) sc =
         Ok (map (\<lambda>i. map (\<lambda>j. of_char (src sc ! (i * nat w + j))) [0..<nat w]) [0..<nat h],
             sc\<lparr>src := drop (nat (w * h)) (src sc)\<rparr>)"
proof -
  let ?n = "nat (w * h)"
  let ?buffer = "map of_char (take ?n (src sc)) :: byte list"
  let ?d0 = "replicate (nat h) (replicate (nat w) (0::byte))"
  from w h have pos: "0 < w * h" by simp
  then have n0: "0 < ?n" by simp
  have m: "min (min ?n maxRW) (length (src sc)) = ?n" using body one by simp
  have ne: "replicate ?n (0::byte) \<noteq> []" "src sc \<noteq> []" using body n0 by auto
  have rd: "file_Read (src sc) (replicate ?n 0) = ((?n, None), ?buffer, drop ?n (src sc))"
    using ne by (simp add: file_Read_def Let_def m)
  have lb: "length ?buffer = ?n" using body by simp
  have loop: "for_loop 0 h (\<lambda>i. for_loop 0 w (P5_pixel ?buffer w i)) ?d0 =
        Ok (map (\<lambda>i. map (\<lambda>j. ?buffer ! nat (int i * w + int j)) [0..<nat w]) [0..<nat h])"
  proof (rule grid_loop)
    show "length ?d0 = nat h" by simp
    show "\<And>i. i < length ?d0 \<Longrightarrow> length (?d0 ! i) = nat w" by simp
  next
    fix i j and t :: "byte list list"
    assume a: "0 \<le> i" "i < h" "0 \<le> j" "j < w" "length t = length ?d0" "length (t ! nat i) = nat w"
    from flat_index [OF a(1-4)] have "0 \<le> i * w + j" "nat (i * w + j) < ?n" by simp_all
    with a lb show "P5_pixel ?buffer w i j t = Ok (t[nat i := (t ! nat i)[nat j := ?buffer ! nat (i * w + j)]])"
      by (simp add: P5_pixel_def index_Ok store2_Ok del: length_map)
  qed
  have eq: "map (\<lambda>i. map (\<lambda>j. ?buffer ! nat (int i * w + int j)) [0..<nat w]) [0..<nat h] =
            map (\<lambda>i. map (\<lambda>j. of_char (src sc ! (i * nat w + j))) [0..<nat w]) [0..<nat h]"
  proof (intro map_cong refl)
    fix i j assume "i \<in> set [0..<nat h]" "j \<in> set [0..<nat w]"
    then have i: "0 \<le> int i" "int i < h" and j: "0 \<le> int j" "int j < w" by simp_all
    from flat_index [OF i j] have lt: "nat (int i * w + int j) < ?n" by simp
    have "nat (int i * w + int j) = i * nat w + j"
      using w by (simp add: nat_add_distrib nat_mult_distrib)
    with lt body show "?buffer ! nat (int i * w + int j) = of_char (src sc ! (i * nat w + j))"
      by simp
  qed
  show ?thesis by (simp add: P5_body_def rd loop eq)
qed


lemma div8: "8 * q \<le> a \<Longrightarrow> a < 8 * q + 8 \<Longrightarrow> (a::int) div 8 = q"
  using int_div_pos_eq [of a 8 q "a - 8 * q"] by simp

lemma div8_bounds: "8 * ((a::int) div 8) \<le> a" "(a::int) < 8 * (a div 8) + 8"
proof -
  have "8 * (a div 8) + a mod 8 = a" by simp
  moreover have "0 \<le> a mod 8" "a mod 8 < 8" by simp_all
  ultimately show "8 * (a div 8) \<le> a" "a < 8 * (a div 8) + 8" by linarith+
qed

lemma pad_div8: "((w::int) + (8 - w mod 8) mod 8 + 7) div 8 = (w + 7) div 8"
proof -
  define q r where "q = w div 8" and "r = w mod 8"
  have w: "w = 8 * q + r" and r: "0 \<le> r" "r < 8" by (simp_all add: q_def r_def)
  show ?thesis
  proof (cases "r = 0")
    case True
    then show ?thesis by (simp add: r_def)
  next
    case False
    have "(8 - r) mod 8 = 8 - r" using r False by (intro mod_pos_pos_trivial) simp_all
    moreover have "(w + (8 - r) + 7) div 8 = q + 1" by (rule div8) (simp_all add: w)
    moreover have "(w + 7) div 8 = q + 1" using r False by (intro div8) (simp_all add: w)
    ultimately show ?thesis by (simp add: r_def)
  qed
qed

lemma div8_less: "0 \<le> j \<Longrightarrow> j < w \<Longrightarrow> (j::int) div 8 < (w + 7) div 8"
  using div8_bounds [of j] div8_bounds [of "w + 7"] by linarith

lemma div8_dvd: "(w::int) mod 8 = 0 \<Longrightarrow> (w + 7) div 8 = w div 8"
proof (rule div8)
  assume "w mod 8 = 0"
  then have "8 * (w div 8) = w" by (simp add: mod_0_imp_dvd)
  then show "8 * (w div 8) \<le> w + 7" "w + 7 < 8 * (w div 8) + 8" by simp_all
qed

lemma ceiling8: "\<lceil>real_of_int w / 8\<rceil> = (w + 7) div 8"
proof (rule ceiling_unique)
  from div8_bounds [of "w + 7"] have "8 * ((w + 7) div 8) - 8 < w" "w \<le> 8 * ((w + 7) div 8)"
    by linarith+
  then have "real_of_int (8 * ((w + 7) div 8) - 8) < real_of_int w"
    and "real_of_int w \<le> real_of_int (8 * ((w + 7) div 8))"
    by (simp_all only: of_int_less_iff of_int_le_iff)
  then show "real_of_int ((w + 7) div 8) - 1 < real_of_int w / 8"
    and "real_of_int w / 8 \<le> real_of_int ((w + 7) div 8)" by simp_all
qed

lemma bytesPerRow_eq: "0 < w \<Longrightarrow> bytesPerRow w = (w + 7) div 8"
proof -
  assume w: "0 < w"
  have p: "0 \<le> 8 - w mod 8" by (simp add: pos_mod_bound less_imp_le)
  have q: "0 \<le> (8 - w mod 8) mod 8" by (rule pos_mod_sign) simp
  have a: "w smod 8 = w mod 8" using w by (intro smod_nonneg) simp_all
  have b: "(8 - w mod 8) smod 8 = (8 - w mod 8) mod 8" using p by (intro smod_nonneg) simp_all
  have c: "(w + (8 - w mod 8) mod 8 + 7) sdiv 8 = (w + (8 - w mod 8) mod 8 + 7) div 8"
    using w q by (intro sdiv_nonneg) linarith+
  show ?thesis unfolding bytesPerRow_def Let_def a b c by (rule pad_div8)
qed

lemma bytesPerRow_ceiling: "0 < w \<Longrightarrow> bytesPerRow w = \<lceil>real_of_int w / 8\<rceil>"
  by (simp add: bytesPerRow_eq ceiling8)

lemma bit_test: "(drop_bit n (b :: byte) AND 1 = 1) = bit b n"
  by (simp add: and_one_eq bit_iff_odd_drop_bit odd_iff_mod_2_eq_one)

lemma file_Read_length: "length (fst (snd (file_Read file p))) = length p"
proof -
  let ?n = "min (min (length p) maxRW) (length file)"
  have "?n \<le> length p" "?n \<le> length file" by simp_all
  then have "length (map of_char (take ?n file) @ drop ?n p :: byte list) = length p" by simp
  then show ?thesis by (simp add: file_Read_def Let_def)
qed

lemma P4_row_bits:
  fixes conv :: "bool \<Rightarrow> 'a"
  assumes i: "0 \<le> i" "nat i < length d" and row: "length (d ! nat i) = nat w" and w: "0 < w"
    and rd: "file_Read (src sc) buffer = ((n, None), buffer', file')"
    and lb: "length buffer = nat (bytesPerRow w)"
  shows "P4_row conv w i (d, buffer, sc) =
         Ok (d[nat i := map (\<lambda>j. conv (bit (buffer' ! (j div 8)) (7 - j mod 8))) [0..<nat w]],
             buffer', sc\<lparr>src := file'\<rparr>)"
proof -
  have lb': "length buffer' = nat ((w + 7) div 8)"
    using file_Read_length [of "src sc" buffer] lb w by (simp add: rd bytesPerRow_eq)
  have loop: "for_loop 0 w (P4_pixel conv buffer' i) d =
      Ok (d[nat i := map (\<lambda>j. conv (bit (buffer' ! nat (int j div 8)) (nat (7 - int j mod 8)))) [0..<nat w]])"
  proof (rule row_loop [OF i row])
    fix j and t :: "'a list list"
    assume a: "0 \<le> j" "j < w" "length t = length d" "length (t ! nat i) = nat w"
    then have "j div 8 < (w + 7) div 8" by (intro div8_less)
    moreover have "0 \<le> j div 8" using a by simp
    ultimately have "nat (j div 8) < length buffer'" using lb' by simp
    moreover have "0 \<le> j mod 8" by simp
    ultimately show "P4_pixel conv buffer' i j t =
        Ok (t[nat i := (t ! nat i)[nat j := conv (bit (buffer' ! nat (j div 8)) (nat (7 - j mod 8)))]])"
      using a i by (simp add: P4_pixel_def Let_def sdiv_nonneg smod_nonneg index_Ok store2_Ok bit_test)
  qed
  have eq: "map (\<lambda>j. conv (bit (buffer' ! nat (int j div 8)) (nat (7 - int j mod 8)))) [0..<nat w] =
            map (\<lambda>j. conv (bit (buffer' ! (j div 8)) (7 - j mod 8))) [0..<nat w]"
  proof (intro map_cong refl)
    fix j :: nat
    have "nat (int j div 8) = j div 8" by (simp add: nat_div_distrib)
    moreover have "nat (7 - int j mod 8) = 7 - j mod 8"
      by (simp add: nat_diff_distrib nat_mod_distrib zmod_int [symmetric] del: of_nat_mod)
    ultimately show "conv (bit (buffer' ! nat (int j div 8)) (nat (7 - int j mod 8))) =
                     conv (bit (buffer' ! (j div 8)) (7 - j mod 8))" by simp
  qed
  show ?thesis by (simp add: P4_row_def rd loop eq)
qed


lemma file_Read_full:
  assumes "0 < length p" and "k + length p \<le> length file" and "length p \<le> maxRW"
  shows "file_Read (drop k file) p =
         ((length p, None), map of_char (take (length p) (drop k file)), drop (k + length p) file)"
proof -
  have m: "min (min (length p) maxRW) (length file - k) = length p" using assms by simp
  have "k < length file" using assms(1,2) by linarith
  then have ne: "p \<noteq> []" "drop k file \<noteq> []" using assms(1) by simp_all
  show ?thesis using ne by (simp add: file_Read_def Let_def m add.commute)
qed

lemma P4_body_full:
  fixes conv :: "bool \<Rightarrow> 'a"
  assumes w: "0 < w" and h: "0 < h" and B: "B = nat (bytesPerRow w)"
    and body: "nat h * B \<le> length (src sc)" and one: "B \<le> maxRW"
  shows "\<exists>buffer. P4_body conv w h (replicate (nat h) (replicate (nat w) z)) sc =
         Ok (map (P4_bits conv (nat w) B (src sc)) [0..<nat h], buffer,
             sc\<lparr>src := drop (nat h * B) (src sc)\<rparr>)"
proof -
  let ?d0 = "replicate (nat h) (replicate (nat w) z)"
  let ?row = "P4_bits conv (nat w) B (src sc)"
  define I where "I k st \<longleftrightarrow> 0 \<le> k \<and> fst st = map ?row [0..<nat k] @ drop (nat k) ?d0
      \<and> length (fst (snd st)) = B \<and> snd (snd st) = sc\<lparr>src := drop (nat k * B) (src sc)\<rparr>"
    for k and st :: "'a list list \<times> byte list \<times> Scanner"
  have Bpos: "0 < B" using w by (simp add: B bytesPerRow_eq)
  have Beq: "B = nat ((w + 7) div 8)" using w by (simp add: B bytesPerRow_eq)
  have "\<exists>st. for_loop 0 h (P4_row conv w) (?d0, replicate B 0, sc) = Ok st \<and> I h st"
  proof (rule for_loop_inv)
    show "I 0 (?d0, replicate B 0, sc)" by (simp add: I_def)
    show "0 \<le> h" using h by simp
  next
    fix k st assume k: "0 \<le> k" "k < h" and inv: "I k st"
    obtain d buffer sc' where st: "st = (d, buffer, sc')" by (cases st)
    from inv st have d: "d = map ?row [0..<nat k] @ drop (nat k) ?d0"
      and lb: "length buffer = B" and sc': "sc' = sc\<lparr>src := drop (nat k * B) (src sc)\<rparr>"
      by (simp_all add: I_def)
    from k have kl: "nat k < length ?d0" by simp
    have ld: "nat k < length d" using kl by (simp add: d)
    have rowk: "length (d ! nat k) = nat w" using kl by (simp add: d nth_append)
    have "(nat k + 1) * B \<le> nat h * B" using k by (intro mult_right_mono) simp_all
    with body have room: "nat k * B + length buffer \<le> length (src sc)" by (simp add: lb)
    let ?buffer' = "map of_char (take B (drop (nat k * B) (src sc))) :: byte list"
    have rd: "file_Read (src sc') buffer = ((B, None), ?buffer', drop (nat k * B + B) (src sc))"
    proof -
      have lp: "0 < length buffer" "length buffer \<le> maxRW" using Bpos one by (simp_all add: lb)
      from file_Read_full [OF lp(1) room lp(2)] show ?thesis by (simp add: lb sc')
    qed
    have row: "P4_row conv w k (d, buffer, sc') =
        Ok (d[nat k := map (\<lambda>j. conv (bit (?buffer' ! (j div 8)) (7 - j mod 8))) [0..<nat w]],
            ?buffer', sc'\<lparr>src := drop (nat k * B + B) (src sc)\<rparr>)"
      by (rule P4_row_bits [OF k(1) ld rowk w rd]) (simp add: lb B)
    have bits: "map (\<lambda>j. conv (bit (?buffer' ! (j div 8)) (7 - j mod 8))) [0..<nat w] = ?row (nat k)"
      unfolding P4_bits_def
    proof (intro map_cong refl)
      fix j assume "j \<in> set [0..<nat w]"
      then have "int j < w" by simp
      then have "int j div 8 < (w + 7) div 8" by (intro div8_less) simp_all
      then have "j div 8 < B" using w by (simp add: Beq zdiv_int [symmetric] del: of_nat_div)
      with room lb have "?buffer' ! (j div 8) = of_char (src sc ! (nat k * B + j div 8))"
        by simp
      then show "conv (bit (?buffer' ! (j div 8)) (7 - j mod 8)) =
          conv (bit (of_char (src sc ! (nat k * B + j div 8)) :: byte) (7 - j mod 8))" by simp
    qed
    have upd: "d[nat k := ?row (nat k)] = map ?row [0..<nat (k + 1)] @ drop (nat (k + 1)) ?d0"
      using upt_map_step [OF kl, of ?row] k unfolding d by (simp add: nat_add_distrib)
    have "I (k + 1) (d[nat k := ?row (nat k)], ?buffer', sc'\<lparr>src := drop (nat k * B + B) (src sc)\<rparr>)"
      using k room lb by (simp add: I_def upd sc' nat_add_distrib algebra_simps)
    with row bits st show "\<exists>st'. P4_row conv w k st = Ok st' \<and> I (k + 1) st'" by simp
  qed
  then obtain st where "for_loop 0 h (P4_row conv w) (?d0, replicate B 0, sc) = Ok st" and "I h st"
    by blast
  then show ?thesis
    by (cases st) (auto simp: P4_body_def I_def B)
qed


lemma upt_10: "[0..<10] = [0, 1, 2, 3, 4, 5, 6, 7, 8, 9 :: nat]"
  by code_simp

text \<open>
  Claim C1 says that a P4 body of width 10 and height 1 with the bytes 0xB0, 0x40 decodes
  to the row 1 0 1 1 0 0 0 0 0 1. The readers compute \<open>bytesPerRow = ceil(width / 8)\<close>
  (\<open>bytesPerRow_ceiling\<close>) and take pixel \<open>j\<close> from bit \<open>7 - j mod 8\<close> of byte \<open>j div 8\<close> of the
  row's buffer (\<open>P4_body_full\<close>), but they fill the buffer with \<open>file.Read\<close> on the file
  that the header's \<open>bufio.Scanner\<close> has read from: the scanner has taken up to 4096
  bytes into its own buffer, and \<open>file.Read\<close> goes on from there, not from the end of the
  header. On the file of the claim (header \<open>P4\<close>, \<open>10 1\<close>, then the two bytes) the scanner
  has read all 10 bytes and \<open>file.Read\<close> returns \<open>io.EOF\<close>, in both variants of the reader.
  The row of the claim comes out only when the body starts at byte 4096 of the file, as
  it does behind a header that a comment fills up to 4096 bytes.
\<close>

theorem P4_body_read_past_read_ahead:
  "ReadPBM (disk (''P4\<newline>10 1\<newline>'' @ [CHR 0xB0, CHR 0x40])) ''image'' = Err EOF
   \<and> ReadPBM_int (disk (''P4\<newline>10 1\<newline>'' @ [CHR 0xB0, CHR 0x40])) ''image'' = Err EOF
   \<and> ReadPBM (disk (padded ''P4'' ''10 1\<newline>'' @ [CHR 0xB0, CHR 0x40])) ''image''
     = Ok \<lparr>data = [[True, False, True, True, False, False, False, False, False, True]],
           width = 10, height = 1, magicNumber = ''P4''\<rparr>"
  by (simp add: reader_eval) (simp add: eval_nat_numeral)

text \<open>
  Claim C5 says that a P5 body of width 2 and height 2 with the bytes 10, 20, 30, 40
  decodes to the rows 10 20 and 30 40. \<open>ReadPGM\<close> stores byte \<open>i * width + j\<close> of its buffer
  in pixel \<open>j\<close> of row \<open>i\<close> (\<open>P5_body_full\<close>), but it fills the buffer with one \<open>file.Read\<close>
  on the file that the header's \<open>bufio.Scanner\<close> has read from, as the P4 reader does: on
  the file of the claim (header \<open>P5\<close>, \<open>2 2\<close>, \<open>255\<close>, then the four bytes) the scanner has
  read all 15 bytes and \<open>file.Read\<close> returns \<open>io.EOF\<close>. The rows of the claim come out only
  when the body starts at byte 4096 of the file.
\<close>

theorem P5_body_read_past_read_ahead:
  "ReadPGM (disk (''P5\<newline>2 2\<newline>255\<newline>'' @ [CHR 10, CHR 20, CHR 30, CHR 40])) ''image'' = Err EOF
   \<and> ReadPGM (disk (padded ''P5'' ''2 2\<newline>255\<newline>'' @ [CHR 10, CHR 20, CHR 30, CHR 40])) ''image''
     = Ok \<lparr>data = [[10, 20], [30, 40]], width = 2, height = 2, magicNumber = ''P5'', max_value = 255\<rparr>"
  by (simp add: reader_eval) (simp add: numeral_2_eq_2)

subsection \<open>The shape of an image\<close>

lemma index_eq_Ok: "index xs i = Ok x \<Longrightarrow> 0 \<le> i \<and> nat i < length xs \<and> x = xs ! nat i"
  by (auto simp: index_def split: if_splits)

lemma store2_shape: "store2 d i j v = Ok d' \<Longrightarrow> map length d' = map length d"
proof -
  assume a: "store2 d i j v = Ok d'"
  then obtain row where r: "index d i = Ok row" and
    b: "(if j < 0 \<or> int (length row) \<le> j then Panic (IndexOutOfRange j (length row))
         else Ok (d[nat i := row[nat j := v]])) = Ok d'"
    by (auto simp: store2_def bind_eq_Ok)
  from index_eq_Ok [OF r] have i: "nat i < length d" "row = d ! nat i" by simp_all
  from b have d': "d' = d[nat i := row[nat j := v]]" by (simp split: if_splits)
  show ?thesis unfolding d' using i by (simp add: map_update list_update_same_conv)
qed

lemma rect_shape: "rect h w d \<Longrightarrow> map length d' = map length d \<Longrightarrow> rect h w d'"
proof -
  assume r: "rect h w d" and m: "map length d' = map length d"
  from m have l: "length d' = length d" by (rule map_eq_imp_length_eq)
  have "\<And>i. i < length d' \<Longrightarrow> length (d' ! i) = nat w"
  proof -
    fix i assume i: "i < length d'"
    then have "length (d' ! i) = map length d' ! i" by simp
    also have "\<dots> = length (d ! i)" using i l by (simp add: m)
    also have "\<dots> = nat w" using r i l by (simp add: rect_nth)
    finally show "length (d' ! i) = nat w" .
  qed
  with r l show ?thesis by (simp add: rect_def list_all_length)
qed

lemma range_tokens_shape:
  "range_tokens conv i j tokens d = Ok d' \<Longrightarrow> map length d' = map length d"
proof (induction tokens arbitrary: j d)
  case Nil
  then show ?case by simp
next
  case (Cons token tokens)
  obtain pixel e where a: "Atoi token = (pixel, e)" by (cases "Atoi token")
  with Cons.prems obtain d1 where s: "store2 d i j (conv pixel) = Ok d1"
    and r: "range_tokens conv i (j + 1) tokens d1 = Ok d'"
    by (cases e; cases "store2 d i j (conv pixel)") simp_all
  from Cons.IH [OF r] store2_shape [OF s] show ?case by simp
qed

lemma for_loop_inv0:
  assumes "P s" and "\<And>k t. i \<le> k \<Longrightarrow> k < n \<Longrightarrow> P t \<Longrightarrow> \<exists>t'. body k t = Ok t' \<and> P t'"
  shows "\<exists>t. for_loop i n body s = Ok t \<and> P t"
  using assms
proof (induction i n body s rule: for_loop.induct)
  case (1 i n body s)
  show ?case
  proof (cases "i < n")
    case True
    with "1.prems" obtain t' where t': "body i s = Ok t'" "P t'" by (metis order_refl)
    have "\<exists>t. for_loop (i + 1) n body t' = Ok t \<and> P t"
    proof (rule "1.IH" [OF True t'(1) t'(2)])
      fix k t assume "i + 1 \<le> k" "k < n" "P t"
      then show "\<exists>t'. body k t = Ok t' \<and> P t'" using "1.prems"(2) [of k t] by simp
    qed
    with True t' show ?thesis by (simp add: for_loop_step)
  next
    case False
    with "1.prems" show ?thesis by (simp add: for_loop_done)
  qed
qed

lemma loops_total:
  assumes "P s"
    and "\<And>i j t. 0 \<le> i \<Longrightarrow> i < n \<Longrightarrow> 0 \<le> j \<Longrightarrow> j < m \<Longrightarrow> P t \<Longrightarrow> \<exists>t'. body i j t = Ok t' \<and> P t'"
  shows "\<exists>t. for_loop 0 n (\<lambda>i. for_loop 0 m (body i)) s = Ok t \<and> P t"
proof (rule for_loop_inv0 [where P = P])
  show "P s" by (rule assms(1))
next
  fix i t assume i: "0 \<le> i" "i < n" and "P t"
  show "\<exists>t'. for_loop 0 m (body i) t = Ok t' \<and> P t'"
  proof (rule for_loop_inv0 [where P = P])
    show "P t" by (rule \<open>P t\<close>)
  next
    fix j u assume "0 \<le> j" "j < m" "P u"
    with i show "\<exists>u'. body i j u = Ok u' \<and> P u'" by (intro assms(2))
  qed
qed

lemma swap2_Ok:
  assumes "0 \<le> i" "nat i < length d" "0 \<le> j" "nat j < length (d ! nat i)"
    and "0 \<le> k" "nat k < length d" "0 \<le> l" "nat l < length (d ! nat k)"
  shows "\<exists>d'. swap2 d i j k l = Ok d' \<and> map length d' = map length d"
proof -
  let ?d1 = "d[nat i := (d ! nat i)[nat j := d ! nat k ! nat l]]"
  have s1: "store2 d i j (d ! nat k ! nat l) = Ok ?d1" using assms by (simp add: store2_Ok)
  have m1: "map length ?d1 = map length d" using s1 by (rule store2_shape)
  then have l1: "length ?d1 = length d" by (rule map_eq_imp_length_eq)
  have "length (?d1 ! nat k) = map length ?d1 ! nat k" using assms l1 by simp
  then have lk: "length (?d1 ! nat k) = length (d ! nat k)" using assms by (simp add: m1)
  have s2: "store2 ?d1 k l (d ! nat i ! nat j) = Ok (?d1[nat k := (?d1 ! nat k)[nat l := d ! nat i ! nat j]])"
    using assms l1 lk by (intro store2_Ok) simp_all
  from store2_shape [OF s2] m1 have "map length (?d1[nat k := (?d1 ! nat k)[nat l := d ! nat i ! nat j]]) = map length d"
    by simp
  moreover have "swap2 d i j k l = Ok (?d1[nat k := (?d1 ! nat k)[nat l := d ! nat i ! nat j]])"
    using assms s1 s2 by (simp add: swap2_def load2_Ok)
  ultimately show ?thesis by simp
qed


lemma make_data_rect: "make_data esz h w z = Ok d \<Longrightarrow> rect h w d"
  by (auto simp: make_data_def rect_def list_all_length split: if_splits)

lemma ascii_row_shape:
  assumes "ascii_row conv i st = Ok st'"
  shows "map length (fst st') = map length (fst st)"
proof -
  obtain line e sc where r: "readNextLine (snd st) = (line, e, sc)" by (cases "readNextLine (snd st)")
  with assms obtain d where "range_tokens conv i 0 (Fields line) (fst st) = Ok d" and "st' = (d, sc)"
    by (cases e) (auto simp: ascii_row_def bind_eq_Ok)
  then show ?thesis by (simp add: range_tokens_shape)
qed

lemma ascii_body_shape:
  assumes "ascii_body conv h d sc = Ok st"
  shows "map length (fst st) = map length d"
proof (rule for_loop_preserves [where P = "\<lambda>st. map length (fst st) = map length d"])
  show "for_loop 0 h (ascii_row conv) (d, sc) = Ok st" using assms by (simp add: ascii_body_def)
  show "map length (fst (d, sc)) = map length d" by simp
next
  fix k u u' assume "map length (fst u) = map length d" "ascii_row conv k u = Ok u'"
  then show "map length (fst u') = map length d" using ascii_row_shape by metis
qed

lemma pixel_loop_shape:
  assumes "for_loop 0 w body d = Ok d'"
    and "\<And>j t t'. body j t = Ok t' \<Longrightarrow> map length t' = map length t"
  shows "map length d' = map length d"
proof (rule for_loop_preserves [where P = "\<lambda>t. map length t = map length d", OF assms(1)])
  show "map length d = map length d" by simp
next
  fix k u u' assume "map length u = map length d" "body k u = Ok u'"
  with assms(2) [of k u u'] show "map length u' = map length d" by simp
qed

lemma P4_pixel_shape: "P4_pixel conv buffer i j t = Ok t' \<Longrightarrow> map length t' = map length t"
  by (auto simp: P4_pixel_def Let_def bind_eq_Ok dest: store2_shape)

lemma P5_pixel_shape: "P5_pixel buffer w i j t = Ok t' \<Longrightarrow> map length t' = map length t"
  by (auto simp: P5_pixel_def bind_eq_Ok dest: store2_shape)

lemma P4_row_shape:
  assumes "P4_row conv w i st = Ok st'"
  shows "map length (fst st') = map length (fst st)"
proof -
  obtain d buffer sc where st: "st = (d, buffer, sc)" by (cases st)
  obtain n e buffer' file' where r: "file_Read (src sc) buffer = ((n, e), buffer', file')"
    by (metis prod.exhaust)
  with assms st obtain d' where "for_loop 0 w (P4_pixel conv buffer' i) d = Ok d'"
    and "st' = (d', buffer', sc\<lparr>src := file'\<rparr>)"
    by (cases e) (auto simp: P4_row_def bind_eq_Ok)
  moreover from this(1) have "map length d' = map length d"
    by (rule pixel_loop_shape) (rule P4_pixel_shape)
  ultimately show ?thesis by (simp add: st)
qed

lemma P4_body_shape:
  assumes "P4_body conv w h d sc = Ok st"
  shows "map length (fst st) = map length d"
proof (rule for_loop_preserves [where P = "\<lambda>st. map length (fst st) = map length d"])
  show "for_loop 0 h (P4_row conv w) (d, replicate (nat (bytesPerRow w)) 0, sc) = Ok st"
    using assms by (simp add: P4_body_def)
  show "map length (fst (d, replicate (nat (bytesPerRow w)) (0::byte), sc)) = map length d" by simp
next
  fix k u u' assume "map length (fst u) = map length d" "P4_row conv w k u = Ok u'"
  then show "map length (fst u') = map length d" using P4_row_shape by metis
qed

lemma P5_body_shape:
  assumes "P5_body w h d sc = Ok st"
  shows "map length (fst st) = map length d"
proof -
  obtain n e buffer file' where r: "file_Read (src sc) (replicate (nat (w * h)) 0) = ((n, e), buffer, file')"
    by (metis prod.exhaust)
  with assms obtain d' where l: "for_loop 0 h (\<lambda>i. for_loop 0 w (P5_pixel buffer w i)) d = Ok d'"
    and st: "st = (d', sc\<lparr>src := file'\<rparr>)"
    by (cases e) (auto simp: P5_body_def bind_eq_Ok)
  have "map length d' = map length d"
  proof (rule pixel_loop_shape [OF l])
    fix i t t' assume "for_loop 0 w (P5_pixel buffer w i) t = Ok t'"
    then show "map length t' = map length t"
      by (rule pixel_loop_shape) (rule P5_pixel_shape)
  qed
  then show ?thesis by (simp add: st)
qed


lemma readPBM_cases:
  assumes "readPBM esz z ofInt ofBit file = Ok g"
  shows "(\<not> (0 < width g \<and> 0 < height g) \<and> data g = [])
       \<or> (0 < width g \<and> 0 < height g \<and>
           (\<exists>d0. make_data esz (height g) (width g) z = Ok d0 \<and> map length (data g) = map length d0))"
proof -
  obtain magic e1 sc1 where l1: "readNextLine (NewScanner file) = (magic, e1, sc1)"
    by (metis prod.exhaust)
  obtain dims e2 sc2 where l2: "readNextLine sc1 = (dims, e2, sc2)" by (metis prod.exhaust)
  define w h where "w = fst (Atoi (Fields dims ! 0))" and "h = fst (Atoi (Fields dims ! 1))"
  from assms l1 have e1: "e1 = None" and m: "magic = ''P1'' \<or> magic = ''P4''"
    by (auto simp: readPBM_def split: option.splits if_splits)
  from assms l1 l2 e1 m have e2: "e2 = None" and f: "length (Fields dims) = 2"
    by (auto simp: readPBM_def Let_def split: option.splits if_splits)
  show ?thesis
  proof (cases "0 < w \<and> 0 < h")
    case False
    with assms l1 l2 e1 e2 m f have "g = \<lparr>data = [], width = w, height = h, magicNumber = magic\<rparr>"
      by (auto simp: readPBM_def Let_def w_def h_def)
    with False show ?thesis by simp
  next
    case True
    with assms l1 l2 e1 e2 m f obtain d0 where md: "make_data esz h w z = Ok d0"
      and rest: "(if magic = ''P1'' then
                   bind (ascii_body ofInt h d0 sc2) (\<lambda>(d, sc).
                     Ok \<lparr>data = d, width = w, height = h, magicNumber = magic\<rparr>)
                 else bind (P4_body ofBit w h d0 sc2) (\<lambda>(d, buffer, sc).
                     Ok \<lparr>data = d, width = w, height = h, magicNumber = magic\<rparr>)) = Ok g"
      by (auto simp: readPBM_def Let_def w_def h_def bind_eq_Ok)
    have "width g = w \<and> height g = h \<and> map length (data g) = map length d0"
    proof (cases "magic = ''P1''")
      case P1: True
      with rest obtain st where a: "ascii_body ofInt h d0 sc2 = Ok st"
        and g: "g = \<lparr>data = fst st, width = w, height = h, magicNumber = magic\<rparr>"
        by (auto simp: bind_eq_Ok)
      from ascii_body_shape [OF a] g show ?thesis by simp
    next
      case False
      with rest obtain st where a: "P4_body ofBit w h d0 sc2 = Ok st"
        and g: "g = \<lparr>data = fst st, width = w, height = h, magicNumber = magic\<rparr>"
        by (auto simp: bind_eq_Ok)
      from P4_body_shape [OF a] g show ?thesis by simp
    qed
    with True md show ?thesis by auto
  qed
qed

lemma readPBM_rectangular:
  assumes "readPBM esz z ofInt ofBit file = Ok g"
  shows "rectangular g"
  using readPBM_cases [OF assms]
  by (auto simp: rectangular_def dest!: make_data_rect intro: rect_shape)

lemma ReadPGM_rectangular:
  assumes "ReadPGM fs filename = Ok g"
  shows "rectangular g"
proof -
  from assms obtain content where o: "os_Open fs filename = Inr content"
    by (auto simp: ReadPGM_def split: sum.splits)
  obtain magic e1 sc1 where l1: "readNextLine (NewScanner content) = (magic, e1, sc1)"
    by (metis prod.exhaust)
  obtain dims e2 sc2 where l2: "readNextLine sc1 = (dims, e2, sc2)" by (metis prod.exhaust)
  obtain maxStr e3 sc3 where l3: "readNextLine sc2 = (maxStr, e3, sc3)" by (metis prod.exhaust)
  obtain mx e4 where l4: "Atoi maxStr = (mx, e4)" by (metis prod.exhaust)
  define w h where "w = fst (Atoi (Fields dims ! 0))" and "h = fst (Atoi (Fields dims ! 1))"
  from assms o l1 have e1: "e1 = None" and m: "magic = ''P2'' \<or> magic = ''P5''"
    by (auto simp: ReadPGM_def split: option.splits if_splits)
  from assms o l1 l2 e1 m have e2: "e2 = None" and f: "length (Fields dims) = 2"
    by (auto simp: ReadPGM_def Let_def split: option.splits if_splits)
  from assms o l1 l2 l3 l4 e1 e2 m f have e3: "e3 = None" and e4: "e4 = None"
    by (auto simp: ReadPGM_def Let_def split: option.splits if_splits)
  show ?thesis
  proof (cases "0 < w \<and> 0 < h")
    case False
    with assms o l1 l2 l3 l4 e1 e2 e3 e4 m f
    have "g = \<lparr>data = [], width = w, height = h, magicNumber = magic, max_value = mx\<rparr>"
      by (auto simp: ReadPGM_def Let_def w_def h_def)
    with False show ?thesis by (auto simp: rectangular_def)
  next
    case True
    with assms o l1 l2 l3 l4 e1 e2 e3 e4 m f obtain d0 where md: "make_data 1 h w (0::byte) = Ok d0"
      and rest: "(if magic = ''P2'' then
                   bind (ascii_body word_of_int h d0 sc3) (\<lambda>(d, sc).
                     Ok \<lparr>data = d, width = w, height = h, magicNumber = magic, max_value = mx\<rparr>)
                 else bind (P5_body w h d0 sc3) (\<lambda>(d, sc).
                     Ok \<lparr>data = d, width = w, height = h, magicNumber = magic, max_value = mx\<rparr>)) = Ok g"
      by (auto simp: ReadPGM_def Let_def w_def h_def bind_eq_Ok)
    have "width g = w \<and> height g = h \<and> map length (data g) = map length d0"
    proof (cases "magic = ''P2''")
      case P2: True
      with rest obtain st where a: "ascii_body word_of_int h d0 sc3 = Ok st"
        and g: "g = \<lparr>data = fst st, width = w, height = h, magicNumber = magic, max_value = mx\<rparr>"
        by (auto simp: bind_eq_Ok)
      from ascii_body_shape [OF a] g show ?thesis by simp
    next
      case False
      with rest obtain st where a: "P5_body w h d0 sc3 = Ok st"
        and g: "g = \<lparr>data = fst st, width = w, height = h, magicNumber = magic, max_value = mx\<rparr>"
        by (auto simp: bind_eq_Ok)
      from P5_body_shape [OF a] g show ?thesis by simp
    qed
    with True make_data_rect [OF md] show ?thesis
      by (auto simp: rectangular_def intro: rect_shape)
  qed
qed


lemma shape_nth:
  assumes "map length t = map length d"
  shows "length t = length d" and "i < length d \<Longrightarrow> length (t ! i) = length (d ! i)"
proof -
  show l: "length t = length d" using assms by (rule map_eq_imp_length_eq)
  assume i: "i < length d"
  then have "length (t ! i) = map length t ! i" using l by simp
  also have "\<dots> = length (d ! i)" using i by (simp add: assms)
  finally show "length (t ! i) = length (d ! i)" .
qed

lemma same_shape_data:
  assumes "rectangular pbm" and "map length d' = map length (data pbm)"
  shows "same_shape pbm (pbm\<lparr>data := d'\<rparr>)"
proof (cases "0 < width pbm \<and> 0 < height pbm")
  case True
  with assms have "rect (height pbm) (width pbm) d'"
    by (auto simp: rectangular_def intro: rect_shape)
  with True assms(2) show ?thesis by (simp add: same_shape_def rectangular_def)
next
  case False
  with assms have "d' = []" by (auto simp: rectangular_def)
  with False assms show ?thesis by (auto simp: same_shape_def rectangular_def)
qed

lemma rectangular_index:
  assumes "rectangular pbm" and "0 \<le> i" "i < height pbm" "0 \<le> j" "j < width pbm"
  shows "nat i < length (data pbm)" and "nat j < length (data pbm ! nat i)"
proof -
  from assms have r: "rect (height pbm) (width pbm) (data pbm)"
    by (auto simp: rectangular_def split: if_splits)
  then show i: "nat i < length (data pbm)" using assms by (simp add: rect_def)
  from rect_nth [OF r i] assms show "nat j < length (data pbm ! nat i)" by simp
qed

lemma half_bound:
  fixes j w :: int
  assumes "0 \<le> j" and "j < w sdiv 2"
  shows "j < w" and "0 \<le> w - j - 1" and "w - j - 1 < w"
proof -
  have w: "0 < w"
  proof (rule ccontr)
    assume "\<not> 0 < w"
    then have "w sdiv 2 \<le> 0"
      by (simp add: signed_divide_int_def sgn_if mult_le_0_iff)
    with assms show False by simp
  qed
  then have "w sdiv 2 = w div 2" by (simp add: sdiv_nonneg)
  moreover have "2 * (w div 2) \<le> w" by simp
  ultimately show "j < w" "0 \<le> w - j - 1" "w - j - 1 < w" using assms by linarith+
qed

lemma Flip_total:
  assumes r: "rectangular pbm"
  shows "\<exists>pbm'. Flip pbm = Ok pbm' \<and> same_shape pbm pbm'"
proof -
  let ?P = "\<lambda>t. map length t = map length (data pbm)"
  have "\<exists>t. for_loop 0 (height pbm) (\<lambda>i. for_loop 0 (width pbm sdiv 2)
          (\<lambda>j d. swap2 d i j i (width pbm - j - 1))) (data pbm) = Ok t \<and> ?P t"
  proof (rule loops_total [where P = ?P])
    show "?P (data pbm)" by simp
  next
    fix i j t assume a: "0 \<le> i" "i < height pbm" "0 \<le> j" "j < width pbm sdiv 2" "?P t"
    note hb = half_bound [OF a(3,4)]
    note i1 = rectangular_index [OF r a(1,2) a(3) hb(1)]
    note i2 = rectangular_index [OF r a(1,2) hb(2,3)]
    note s = shape_nth [OF a(5)]
    have "\<exists>d'. swap2 t i j i (width pbm - j - 1) = Ok d' \<and> map length d' = map length t"
      using a hb i1 i2 s(1) s(2) [OF i1(1)] by (intro swap2_Ok) simp_all
    with a(5) show "\<exists>t'. swap2 t i j i (width pbm - j - 1) = Ok t' \<and> ?P t'" by auto
  qed
  then obtain t where "for_loop 0 (height pbm) (\<lambda>i. for_loop 0 (width pbm sdiv 2)
          (\<lambda>j d. swap2 d i j i (width pbm - j - 1))) (data pbm) = Ok t" and "?P t" by blast
  then show ?thesis using same_shape_data [OF r] by (simp add: Flip_def)
qed

lemma Flop_total:
  assumes r: "rectangular pbm"
  shows "\<exists>pbm'. Flop pbm = Ok pbm' \<and> same_shape pbm pbm'"
proof -
  let ?P = "\<lambda>t. map length t = map length (data pbm)"
  have "\<exists>t. for_loop 0 (height pbm sdiv 2) (\<lambda>i. for_loop 0 (width pbm)
          (\<lambda>j d. swap2 d i j (height pbm - i - 1) j)) (data pbm) = Ok t \<and> ?P t"
  proof (rule loops_total [where P = ?P])
    show "?P (data pbm)" by simp
  next
    fix i j t assume a: "0 \<le> i" "i < height pbm sdiv 2" "0 \<le> j" "j < width pbm" "?P t"
    note hb = half_bound [OF a(1,2)]
    note i1 = rectangular_index [OF r a(1) hb(1) a(3,4)]
    note i2 = rectangular_index [OF r hb(2,3) a(3,4)]
    note s = shape_nth [OF a(5)]
    have "\<exists>d'. swap2 t i j (height pbm - i - 1) j = Ok d' \<and> map length d' = map length t"
      using a hb i1 i2 s(1) s(2) [OF i1(1)] s(2) [OF i2(1)] by (intro swap2_Ok) simp_all
    with a(5) show "\<exists>t'. swap2 t i j (height pbm - i - 1) j = Ok t' \<and> ?P t'" by auto
  qed
  then obtain t where "for_loop 0 (height pbm sdiv 2) (\<lambda>i. for_loop 0 (width pbm)
          (\<lambda>j d. swap2 d i j (height pbm - i - 1) j)) (data pbm) = Ok t" and "?P t" by blast
  then show ?thesis using same_shape_data [OF r] by (simp add: Flop_def)
qed

lemma Set_shape:
  assumes r: "rectangular pbm" and s: "Set pbm x y v = Ok pbm'"
  shows "same_shape pbm pbm'"
proof -
  from s obtain d' where d: "store2 (data pbm) y x v = Ok d'" and p: "pbm' = pbm\<lparr>data := d'\<rparr>"
    by (auto simp: Set_def bind_eq_Ok)
  from same_shape_data [OF r store2_shape [OF d]] p show ?thesis by simp
qed

lemma Set_total:
  assumes r: "rectangular pbm" and "0 \<le> x" "x < width pbm" "0 \<le> y" "y < height pbm"
  shows "\<exists>pbm'. Set pbm x y v = Ok pbm'"
  using rectangular_index [OF r assms(4,5) assms(2,3)] assms
  by (simp add: Set_def store2_Ok)

lemma Invert_total:
  assumes r: "rectangular pbm"
  shows "\<exists>pbm'. PBM_Invert pbm = Ok pbm' \<and> same_shape pbm pbm'"
  using same_shape_data [OF r, of "map (map Not) (data pbm)"]
  by (simp add: PBM_Invert_def pixel_loop [OF r] comp_def)

lemma PGM_Invert_total:
  assumes r: "rectangular pgm"
  shows "\<exists>pgm'. PGM_Invert pgm = Ok pgm' \<and> same_shape pgm pgm'"
  using same_shape_data [OF r, of "map (map (\<lambda>p. word_of_int (max_value pgm) - p)) (data pgm)"]
  by (simp add: PGM_Invert_def pixel_loop [OF r] comp_def)


text \<open>
  Claim C9 says that a decoded image has exactly \<open>height\<close> rows of \<open>width\<close> pixels. The
  readers allocate the rows only under \<open>if width > 0 && height > 0\<close>: a file that declares
  width 0 and height 5 is read as an image of height 5 without a row.
\<close>

theorem rows_of_no_image:
  "\<exists>pbm. ReadPBM (disk ''P1\<newline>0 5\<newline>'') ''image'' = Ok pbm \<and> height pbm = 5 \<and> length (data pbm) = 0"
  by (simp add: reader_eval)


text \<open>
  Claim C9 as amended. An image that a reader returns is rectangular: \<open>height\<close> rows of
  \<open>width\<close> pixels when both are positive, and no row otherwise. On a rectangular image
  \<open>Invert\<close>, \<open>Flip\<close> and \<open>Flop\<close> return, \<open>Set\<close> returns for \<open>0 \<le> x < width\<close> and
  \<open>0 \<le> y < height\<close>, and every image that \<open>Set\<close>, \<open>Invert\<close>, \<open>Flip\<close>, \<open>Flop\<close>,
  \<open>SetMagicNumber\<close> or \<open>SetMaxValue\<close> returns is rectangular with the same width, height,
  number of rows and row lengths.
\<close>

theorem rectangular_invariant:
  "(ReadPBM fs filename = Ok pbm \<longrightarrow> rectangular pbm)
   \<and> (ReadPBM_int fs filename = Ok pbmi \<longrightarrow> rectangular pbmi)
   \<and> (ReadPGM fs filename = Ok pgm \<longrightarrow> rectangular pgm)
   \<and> (rectangular g \<longrightarrow>
        (\<forall>g'. Set g x y v = Ok g' \<longrightarrow> same_shape g g')
        \<and> (0 \<le> x \<and> x < width g \<and> 0 \<le> y \<and> y < height g \<longrightarrow> (\<exists>g'. Set g x y v = Ok g'))
        \<and> (\<exists>g'. Flip g = Ok g' \<and> same_shape g g')
        \<and> (\<exists>g'. Flop g = Ok g' \<and> same_shape g g')
        \<and> same_shape g (SetMagicNumber g magic))
   \<and> (rectangular b \<longrightarrow> (\<exists>b'. PBM_Invert b = Ok b' \<and> same_shape b b'))
   \<and> (rectangular p \<longrightarrow>
        (\<exists>p'. PGM_Invert p = Ok p' \<and> same_shape p p') \<and> same_shape p (SetMaxValue p maxValue))"
proof (intro conjI impI allI)
  show "rectangular pbm" if "ReadPBM fs filename = Ok pbm"
    using that by (auto simp: ReadPBM_def split: sum.splits dest: readPBM_rectangular)
  show "rectangular pbmi" if "ReadPBM_int fs filename = Ok pbmi"
    using that by (auto simp: ReadPBM_int_def split: sum.splits dest: readPBM_rectangular)
  show "rectangular pgm" if "ReadPGM fs filename = Ok pgm"
    using that by (rule ReadPGM_rectangular)
  show "same_shape g g'" if "rectangular g" "Set g x y v = Ok g'" for g'
    using that by (rule Set_shape)
  show "\<exists>g'. Set g x y v = Ok g'" if "rectangular g" "0 \<le> x \<and> x < width g \<and> 0 \<le> y \<and> y < height g"
    using that by (intro Set_total) simp_all
  show "\<exists>g'. Flip g = Ok g' \<and> same_shape g g'" if "rectangular g"
    using that by (rule Flip_total)
  show "\<exists>g'. Flop g = Ok g' \<and> same_shape g g'" if "rectangular g"
    using that by (rule Flop_total)
  show "same_shape g (SetMagicNumber g magic)" if "rectangular g"
    using that by (simp add: same_shape_def SetMagicNumber_def rectangular_def)
  show "\<exists>b'. PBM_Invert b = Ok b' \<and> same_shape b b'" if "rectangular b"
    using that by (rule Invert_total)
  show "\<exists>p'. PGM_Invert p = Ok p' \<and> same_shape p p'" if "rectangular p"
    using that by (rule PGM_Invert_total)
  show "same_shape p (SetMaxValue p maxValue)" if "rectangular p"
    using that by (simp add: same_shape_def SetMaxValue_def rectangular_def)
qed

theorem rectangular_invariant_witness:
  "ReadPBM (disk ''P1\<newline>3 2\<newline>1 0 1\<newline>0 1\<newline>'') ''image''
     = Ok \<lparr>data = [[True, False, True], [False, True, False]], width = 3, height = 2,
           magicNumber = ''P1''\<rparr>
   \<and> rectangular \<lparr>data = [[True, False, True], [False, True, False]], width = 3, height = 2,
                   magicNumber = ''P1''\<rparr>
   \<and> (\<exists>g'. Flip \<lparr>data = [[True, False, True], [False, True, False]], width = 3, height = 2,
                    magicNumber = ''P1''\<rparr> = Ok g'
           \<and> same_shape \<lparr>data = [[True, False, True], [False, True, False]], width = 3, height = 2,
                          magicNumber = ''P1''\<rparr> g')
   \<and> (\<exists>g'. Set \<lparr>data = [[True, False, True], [False, True, False]], width = 3, height = 2,
                   magicNumber = ''P1''\<rparr> 2 1 True = Ok g')"
proof -
  let ?g = "\<lparr>data = [[True, False, True], [False, True, False]], width = 3, height = 2,
             magicNumber = ''P1''\<rparr>"
  let ?fs = "disk ''P1\<newline>3 2\<newline>1 0 1\<newline>0 1\<newline>''"
  have rd: "ReadPBM ?fs ''image'' = Ok ?g"
    by (simp add: reader_eval) (simp add: eval_nat_numeral)
  note t = rectangular_invariant [where fs = ?fs and filename = "''image''" and pbm = ?g
      and g = ?g and x = 2 and y = 1 and v = True]
  from t [THEN conjunct1] rd have r: "rectangular ?g" by simp
  note t4 = t [THEN conjunct2, THEN conjunct2, THEN conjunct2, THEN conjunct1, rule_format, OF r]
  have f: "\<exists>g'. Flip ?g = Ok g' \<and> same_shape ?g g'"
    by (rule t4 [THEN conjunct2, THEN conjunct2, THEN conjunct1])
  have s: "\<exists>g'. Set ?g 2 1 True = Ok g'"
    using t4 [THEN conjunct2, THEN conjunct1] by simp
  from rd r f s show ?thesis by (intro conjI)
qed

subsection \<open>The ASCII bodies\<close>

lemma range_tokens_step:
  "snd (Atoi token) = None \<Longrightarrow>
   range_tokens conv i j (token # tokens) d =
     bind (store2 d i j (conv (fst (Atoi token)))) (range_tokens conv i (j + 1) tokens)"
  by (cases "Atoi token") (simp add: bind_def)

lemma range_tokens_Ok:
  assumes "0 \<le> i" and "nat i < length d" and "list_all (\<lambda>t. snd (Atoi t) = None) toks"
    and "0 \<le> j" and "nat j + length toks \<le> length (d ! nat i)"
  shows "range_tokens conv i j toks d =
         Ok (d[nat i := take (nat j) (d ! nat i) @ map (\<lambda>t. conv (fst (Atoi t))) toks
                          @ drop (nat j + length toks) (d ! nat i)])"
  using assms
proof (induction toks arbitrary: j d)
  case Nil
  then show ?case by simp
next
  case (Cons token toks)
  let ?row = "d ! nat i"
  let ?v = "conv (fst (Atoi token))"
  let ?d1 = "d[nat i := ?row[nat j := ?v]]"
  from Cons.prems have a: "Atoi token = (fst (Atoi token), None)" by (simp add: prod_eq_iff)
  from Cons.prems have jl: "nat j < length ?row" by simp
  have s: "store2 d i j ?v = Ok ?d1" using Cons.prems jl by (simp add: store2_Ok)
  have r1: "?d1 ! nat i = ?row[nat j := ?v]" using Cons.prems by simp
  have "range_tokens conv i (j + 1) toks ?d1 =
      Ok (?d1[nat i := take (nat (j + 1)) (?d1 ! nat i) @ map (\<lambda>t. conv (fst (Atoi t))) toks
                         @ drop (nat (j + 1) + length toks) (?d1 ! nat i)])"
    using Cons.prems by (intro Cons.IH) (simp_all add: nat_add_distrib)
  moreover have "take (nat (j + 1)) (?row[nat j := ?v]) = take (nat j) ?row @ [?v]"
    using Cons.prems(4) jl by (simp add: nat_add_distrib take_Suc_conv_app_nth)
  moreover have "drop (nat (j + 1) + length toks) (?row[nat j := ?v]) = drop (nat j + length (token # toks)) ?row"
    using Cons.prems(4) by (simp add: nat_add_distrib)
  ultimately have "range_tokens conv i (j + 1) toks ?d1 =
      Ok (d[nat i := take (nat j) ?row @ map (\<lambda>t. conv (fst (Atoi t))) (token # toks)
                         @ drop (nat j + length (token # toks)) ?row])"
    by (simp add: r1)
  moreover have "snd (Atoi token) = None" using Cons.prems by simp
  ultimately show ?case by (simp add: range_tokens_step s del: range_tokens.simps)
qed


lemma ascii_row_Ok:
  assumes "readNextLine sc = (line, None, sc1)" and "0 \<le> i" and "nat i < length d"
    and "d ! nat i = replicate W z"
    and "length (Fields line) \<le> W" and "list_all (\<lambda>t. snd (Atoi t) = None) (Fields line)"
  shows "ascii_row conv i (d, sc) = Ok (d[nat i := ascii_pixels conv W z line], sc1)"
proof -
  have "range_tokens conv i 0 (Fields line) d =
      Ok (d[nat i := take (nat 0) (d ! nat i) @ map (\<lambda>t. conv (fst (Atoi t))) (Fields line)
                       @ drop (nat 0 + length (Fields line)) (d ! nat i)])"
    using assms by (intro range_tokens_Ok) simp_all
  with assms show ?thesis by (simp add: ascii_row_def ascii_pixels_def)
qed

lemma ascii_body_rows:
  assumes "0 \<le> i" and "read_lines n sc = Some (ls, sc')" and "length d = nat i + n"
    and "drop (nat i) d = replicate n (replicate W z)" and "rows_fit W ls"
  shows "for_loop i (i + int n) (ascii_row conv) (d, sc) =
         Ok (take (nat i) d @ map (ascii_pixels conv W z) ls, sc')"
  using assms
proof (induction n arbitrary: i d sc ls)
  case 0
  then show ?case by (simp add: for_loop_done)
next
  case (Suc n)
  obtain line e sc1 where r: "readNextLine sc = (line, e, sc1)" by (metis prod.exhaust)
  with Suc.prems(2) have e: "e = None" by (cases e) simp_all
  with r Suc.prems(2) obtain ls1 where rl: "read_lines n sc1 = Some (ls1, sc')" and ls: "ls = line # ls1"
    by auto
  from Suc.prems(3) have il: "nat i < length d" by simp
  have di: "d ! nat i = replicate W z"
  proof -
    have "d ! nat i = drop (nat i) d ! 0" using il by simp
    then show ?thesis by (simp add: Suc.prems(4))
  qed
  from Suc.prems(5) ls have fit: "length (Fields line) \<le> W"
    "list_all (\<lambda>t. snd (Atoi t) = None) (Fields line)" "rows_fit W ls1"
    by (simp_all add: rows_fit_def)
  let ?d1 = "d[nat i := ascii_pixels conv W z line]"
  have row: "ascii_row conv i (d, sc) = Ok (?d1, sc1)"
    using r e Suc.prems(1) il di fit(1,2) by (intro ascii_row_Ok) simp_all
  have dr: "drop (nat (i + 1)) ?d1 = replicate n (replicate W z)"
  proof -
    have "drop (nat (i + 1)) ?d1 = drop (Suc (nat i)) d" using Suc.prems(1) by (simp add: nat_add_distrib)
    also have "\<dots> = tl (drop (nat i) d)" by (simp add: drop_Suc tl_drop)
    also have "\<dots> = replicate n (replicate W z)" by (simp add: Suc.prems(4))
    finally show ?thesis .
  qed
  have "for_loop (i + 1) (i + 1 + int n) (ascii_row conv) (?d1, sc1) =
      Ok (take (nat (i + 1)) ?d1 @ map (ascii_pixels conv W z) ls1, sc')"
    using Suc.prems(1,3) rl dr fit(3) by (intro Suc.IH) (simp_all add: nat_add_distrib)
  moreover have "take (nat (i + 1)) ?d1 = take (nat i) d @ [ascii_pixels conv W z line]"
    using Suc.prems(1) il by (simp add: nat_add_distrib take_Suc_conv_app_nth)
  moreover have "i + 1 + int n = i + int (Suc n)" by simp
  ultimately have "for_loop (i + 1) (i + int (Suc n)) (ascii_row conv) (?d1, sc1) =
      Ok (take (nat i) d @ map (ascii_pixels conv W z) ls, sc')"
    by (simp add: ls)
  moreover have "i < i + int (Suc n)" by simp
  ultimately show ?case by (simp add: for_loop_step row del: of_nat_Suc)
qed

lemma ascii_body_Ok:
  assumes "0 < h" and "read_lines (nat h) sc = Some (ls, sc')" and "rows_fit (nat w) ls"
  shows "ascii_body conv h (replicate (nat h) (replicate (nat w) z)) sc =
         Ok (map (ascii_pixels conv (nat w) z) ls, sc')"
  using ascii_body_rows [of 0 "nat h" sc ls sc' "replicate (nat h) (replicate (nat w) z)" "nat w" z conv]
    assms by (simp add: ascii_body_def)


lemma ascii_pixels_zero:
  "length (Fields line) \<le> j \<Longrightarrow> j < W \<Longrightarrow> ascii_pixels conv W z line ! j = z"
  by (simp add: ascii_pixels_def nth_append)

lemma ascii_pixels_token:
  "j < length (Fields line) \<Longrightarrow> ascii_pixels conv W z line ! j = conv (fst (Atoi (Fields line ! j)))"
  by (simp add: ascii_pixels_def nth_append)

subsection \<open>The scanner on its pending input\<close>

lemma IndexByte_None: "IndexByte xs c = None \<longleftrightarrow> c \<notin> set xs"
  by (induction xs) auto

lemma IndexByte_Some: "c \<notin> set l \<Longrightarrow> IndexByte (l @ c # rest) c = Some (length l)"
  by (induction l) auto

lemma Scan_unfold_more:
  assumes "IndexByte (buf s) (CHR 0x0A) = None" and "err s = None" and "grow (shift s) = Some s'"
  shows "Scan s = Scan (fill s')"
  using assms by (subst Scan.simps) (simp add: ScanLines_def)

lemma Scan_unfold_long:
  assumes "IndexByte (buf s) (CHR 0x0A) = None" and "err s = None" and "grow (shift s) = None"
  shows "Scan s = (False, [], (shift s)\<lparr>err := Some ErrTooLong\<rparr>)"
  using assms by (subst Scan.simps) (simp add: ScanLines_def)

lemma grow_shift_ok:
  assumes ok: "scanner_ok s" and short: "length (buf s) < maxTokenSize"
  shows "\<exists>s'. grow (shift s) = Some s' \<and> buf s' = buf s \<and> src s' = src s \<and> err s' = err s
           \<and> bufEnd s' < cap s' \<and> cap s' \<le> maxTokenSize"
proof -
  let ?s1 = "shift s"
  have s1: "buf ?s1 = buf s" "src ?s1 = src s" "err ?s1 = err s" "cap ?s1 = cap s"
    by (simp_all add: shift_def)
  have e1: "bufEnd ?s1 \<le> cap s" using ok by (auto simp: shift_def bufEnd_def scanner_ok_def)
  show ?thesis
  proof (cases "bufEnd ?s1 = cap ?s1")
    case False
    then have "grow ?s1 = Some ?s1" by (simp add: grow_def)
    moreover have "bufEnd ?s1 < cap ?s1" using False e1 s1 by simp
    ultimately show ?thesis using s1 ok by (simp add: scanner_ok_def)
  next
    case True
    with ok have st: "start s = 0"
      by (auto simp: shift_def bufEnd_def scanner_ok_def split: if_splits)
    with True have c: "cap s = length (buf s)" by (simp add: shift_def bufEnd_def)
    with short have lt: "\<not> maxTokenSize \<le> cap ?s1" by (simp add: s1)
    let ?n = "min (if cap ?s1 * 2 = 0 then startBufSize else cap ?s1 * 2) maxTokenSize"
    have g: "grow ?s1 = Some (?s1\<lparr>cap := ?n, start := 0\<rparr>)"
      using True lt by (simp add: grow_def)
    have "length (buf s) < ?n" using c short by (auto simp: s1 startBufSize_def min_def)
    then show ?thesis using g s1 by (simp add: bufEnd_def)
  qed
qed


lemma fill_facts:
  assumes "bufEnd s < cap s" and "cap s \<le> maxTokenSize" and "err s = None"
  shows "pending (fill s) = pending s" and "scanner_ok (fill s)"
    and "2 * length (src (fill s)) + (if err (fill s) = None then 1 else 0) < 2 * length (src s) + 1"
    and "src s \<noteq> [] \<Longrightarrow> err (fill s) = None"
  using assms
  by (cases "src s"; auto simp: fill_def Let_def pending_def scanner_ok_def bufEnd_def min_def)+

lemma split_at_newline:
  assumes "b @ r = l @ c # rest" and "c \<notin> set l"
  shows "c \<in> set b \<Longrightarrow> \<exists>r'. b = l @ c # r' \<and> rest = r' @ r"
    and "c \<notin> set b \<Longrightarrow> length b \<le> length l"
proof -
  from assms(1) obtain us where
    us: "b = l @ us \<and> us @ r = c # rest \<or> b @ us = l \<and> r = us @ c # rest"
    by (auto simp: append_eq_append_conv2)
  show "\<exists>r'. b = l @ c # r' \<and> rest = r' @ r" if "c \<in> set b"
  proof -
    from us that assms(2) have b: "b = l @ us" and u: "us @ r = c # rest" by auto
    from b that assms(2) have "us \<noteq> []" by auto
    with u obtain r' where "us = c # r'" "rest = r' @ r" by (cases us) auto
    with b show ?thesis by simp
  qed
  show "length b \<le> length l" if "c \<notin> set b"
  proof -
    from us show ?thesis
    proof
      assume a: "b = l @ us \<and> us @ r = c # rest"
      with that have "us = []" by (cases us) auto
      with a show ?thesis by simp
    next
      assume "b @ us = l \<and> r = us @ c # rest"
      then have "length l = length b + length us" by (metis length_append)
      then show ?thesis by simp
    qed
  qed
qed

lemma Scan_nl:
  assumes "scanner_ok s" and "pending s = l @ CHR 0x0A # rest" and "CHR 0x0A \<notin> set l"
    and "length l < maxTokenSize"
  shows "\<exists>s'. Scan s = (True, dropCR l, s') \<and> pending s' = rest \<and> scanner_ok s'"
  using assms
proof (induction "2 * length (src s) + (if err s = None then 1 else 0 :: nat)" arbitrary: s rule: less_induct)
  case less
  note p = less.prems(2) [unfolded pending_def]
  show ?case
  proof (cases "CHR 0x0A \<in> set (buf s)")
    case True
    from split_at_newline(1) [OF p less.prems(3) True]
    obtain r' where b: "buf s = l @ CHR 0x0A # r'" and r: "rest = r' @ src s" by blast
    have "IndexByte (buf s) (CHR 0x0A) = Some (length l)"
      using less.prems(3) by (simp add: b IndexByte_Some)
    from Scan_line [OF this]
    have "Scan s = (True, dropCR l, s\<lparr>buf := r', start := start s + (length l + 1)\<rparr>)"
      by (simp add: b)
    moreover have "pending (s\<lparr>buf := r', start := start s + (length l + 1)\<rparr>) = rest"
      by (simp add: pending_def r)
    moreover have "scanner_ok (s\<lparr>buf := r', start := start s + (length l + 1)\<rparr>)"
      using less.prems(1) by (simp add: scanner_ok_def bufEnd_def b)
    ultimately show ?thesis by blast
  next
    case False
    then have ib: "IndexByte (buf s) (CHR 0x0A) = None" by (simp add: IndexByte_None)
    from split_at_newline(2) [OF p less.prems(3) False] less.prems(4)
    have short: "length (buf s) < maxTokenSize" by simp
    have e: "err s = None"
    proof (rule ccontr)
      assume "err s \<noteq> None"
      with less.prems(1) have "src s = []" by (auto simp: scanner_ok_def)
      with p False show False by auto
    qed
    from grow_shift_ok [OF less.prems(1) short] obtain s1 where
      g: "grow (shift s) = Some s1" and s1: "buf s1 = buf s" "src s1 = src s" "err s1 = err s"
        "bufEnd s1 < cap s1" "cap s1 \<le> maxTokenSize"
      by blast
    have sc: "Scan s = Scan (fill s1)" by (rule Scan_unfold_more [OF ib e g])
    note f = fill_facts [OF s1(4,5), unfolded s1(3), OF e]
    have "\<exists>s'. Scan (fill s1) = (True, dropCR l, s') \<and> pending s' = rest \<and> scanner_ok s'"
    proof (rule less.hyps)
      show "2 * length (src (fill s1)) + (if err (fill s1) = None then 1 else 0)
          < 2 * length (src s) + (if err s = None then 1 else 0)"
        using f(3) by (simp add: s1 e)
      show "scanner_ok (fill s1)" by (rule f(2))
      show "pending (fill s1) = l @ CHR 0x0A # rest"
        using f(1) less.prems(2) by (simp add: pending_def s1)
    qed (rule less.prems)+
    with sc show ?thesis by simp
  qed
qed


lemma Scan_end:
  assumes "scanner_ok s" and "pending s = []"
  shows "\<exists>s'. Scan s = (False, [], s') \<and> pending s' = [] \<and> scanner_ok s' \<and> Scanner_Err s' = None"
proof -
  from assms(2) have b: "buf s = []" "src s = []" by (simp_all add: pending_def)
  have after: "\<exists>s'. Scan t = (False, [], s') \<and> pending s' = [] \<and> scanner_ok s' \<and> Scanner_Err s' = None"
    if "buf t = []" "src t = []" "err t = Some EOF" "cap t \<le> maxTokenSize" for t
  proof -
    have "Scan t = (False, [], t\<lparr>start := 0\<rparr>)" using that by (intro Scan_after_eof)
    moreover have "pending (t\<lparr>start := 0\<rparr>) = []" using that by (simp add: pending_def)
    moreover have "scanner_ok (t\<lparr>start := 0\<rparr>)" using that by (simp add: scanner_ok_def bufEnd_def)
    moreover have "Scanner_Err (t\<lparr>start := 0\<rparr>) = None" using that by (simp add: Scanner_Err_def)
    ultimately show ?thesis by blast
  qed
  show ?thesis
  proof (cases "err s")
    case (Some e)
    with assms(1) have "err s = Some EOF" "cap s \<le> maxTokenSize" by (auto simp: scanner_ok_def)
    with b show ?thesis by (intro after)
  next
    case None
    have "length (buf s) < maxTokenSize" by (simp add: b maxTokenSize_def)
    from grow_shift_ok [OF assms(1) this] obtain s1 where
      g: "grow (shift s) = Some s1" and s1: "buf s1 = buf s" "src s1 = src s" "err s1 = err s"
        "bufEnd s1 < cap s1" "cap s1 \<le> maxTokenSize"
      by blast
    have "IndexByte (buf s) (CHR 0x0A) = None" by (simp add: b)
    then have sc: "Scan s = Scan (fill s1)" using None g by (rule Scan_unfold_more)
    have f: "fill s1 = s1\<lparr>err := Some EOF\<rparr>" using s1 b by (simp add: fill_def)
    have "\<exists>s'. Scan (fill s1) = (False, [], s') \<and> pending s' = [] \<and> scanner_ok s' \<and> Scanner_Err s' = None"
      using s1 b by (intro after) (simp_all add: f)
    with sc show ?thesis by simp
  qed
qed

lemma Scan_too_long:
  assumes "scanner_ok s" and "err s = None" and "pending s = l @ rest" and "CHR 0x0A \<notin> set l"
    and "maxTokenSize \<le> length l"
  shows "\<exists>s'. Scan s = (False, [], s') \<and> err s' = Some ErrTooLong"
  using assms
proof (induction "length (src s)" arbitrary: s rule: less_induct)
  case less
  note p = less.prems(3) [unfolded pending_def]
  from less.prems(1) have c: "start s + length (buf s) \<le> cap s" "cap s \<le> maxTokenSize"
    by (simp_all add: scanner_ok_def bufEnd_def)
  with less.prems(5) have bl: "length (buf s) \<le> length l" by simp
  with p have "buf s = take (length (buf s)) l" by (metis append_eq_append_conv_if append_eq_conv_conj)
  then have "set (buf s) \<subseteq> set l" by (metis set_take_subset)
  with less.prems(4) have ib: "IndexByte (buf s) (CHR 0x0A) = None" by (auto simp: IndexByte_None)
  show ?case
  proof (cases "grow (shift s)")
    case None
    from Scan_unfold_long [OF ib less.prems(2) None] show ?thesis by simp
  next
    case (Some s1)
    have full: "length (buf s) < maxTokenSize"
    proof (rule ccontr)
      assume "\<not> length (buf s) < maxTokenSize"
      with c have "start s = 0" "length (buf s) = cap s" "maxTokenSize \<le> cap s" by simp_all
      then have "grow (shift s) = None" by (simp add: grow_def shift_def bufEnd_def)
      with Some show False by simp
    qed
    from grow_shift_ok [OF less.prems(1) full] Some
    have s1: "buf s1 = buf s" "src s1 = src s" "err s1 = err s" "bufEnd s1 < cap s1"
      "cap s1 \<le> maxTokenSize" by auto
    have ne: "src s \<noteq> []"
    proof
      assume "src s = []"
      with p have "buf s = l @ rest" by simp
      with full less.prems(5) show False by simp
    qed
    have sc: "Scan s = Scan (fill s1)" by (rule Scan_unfold_more [OF ib less.prems(2) Some])
    note f = fill_facts [OF s1(4,5), unfolded s1(3), OF less.prems(2)]
    have fe: "err (fill s1) = None" using f(4) ne by (simp add: s1)
    have "\<exists>s'. Scan (fill s1) = (False, [], s') \<and> err s' = Some ErrTooLong"
    proof (rule less.hyps)
      show "length (src (fill s1)) < length (src s)" using f(3) fe by (simp add: s1)
      show "scanner_ok (fill s1)" by (rule f(2))
      show "err (fill s1) = None" by (rule fe)
      show "pending (fill s1) = l @ rest" using f(1) less.prems(3) by (simp add: pending_def s1)
    qed (rule less.prems)+
    with sc show ?thesis by simp
  qed
qed

lemma readNextLine_nl:
  assumes "scanner_ok s" and "pending s = l @ CHR 0x0A # rest" and "CHR 0x0A \<notin> set l"
    and "length l < maxTokenSize"
    and "TrimSpace (dropCR l) \<noteq> []" and "\<not> HasPrefix (TrimSpace (dropCR l)) ''#''"
  shows "\<exists>s'. readNextLine s = (TrimSpace (dropCR l), None, s') \<and> pending s' = rest \<and> scanner_ok s'"
proof -
  from Scan_nl [OF assms(1-4)] obtain s' where
    "Scan s = (True, dropCR l, s')" "pending s' = rest" "scanner_ok s'" by blast
  with assms(5,6) show ?thesis by (subst readNextLine.simps) simp
qed

lemma readNextLine_end:
  assumes "scanner_ok s" and "pending s = []"
  shows "\<exists>s'. readNextLine s = ([], None, s') \<and> pending s' = [] \<and> scanner_ok s'"
proof -
  from Scan_end [OF assms] obtain s' where
    "Scan s = (False, [], s')" "pending s' = []" "scanner_ok s'" "Scanner_Err s' = None" by blast
  then show ?thesis by (subst readNextLine.simps) simp
qed

lemma readNextLine_too_long:
  assumes "scanner_ok s" and "err s = None" and "pending s = l @ rest" and "CHR 0x0A \<notin> set l"
    and "maxTokenSize \<le> length l"
  shows "\<exists>s'. readNextLine s = ([], Some ErrTooLong, s')"
proof -
  from Scan_too_long [OF assms] obtain s' where
    "Scan s = (False, [], s')" "err s' = Some ErrTooLong" by blast
  then show ?thesis by (subst readNextLine.simps) (simp add: Scanner_Err_def)
qed

lemma NewScanner_ok: "scanner_ok (NewScanner file)" "pending (NewScanner file) = file"
  "err (NewScanner file) = None"
  by (simp_all add: scanner_ok_def NewScanner_def bufEnd_def pending_def)

subsection \<open>Numbers as text\<close>

lemma plain_facts:
  assumes "plain c"
  shows "spaceWidth (c # cs) = 0" "spaceWidthLast (c # cs) = 0" "c \<noteq> CHR 0x0A" "c \<noteq> CHR 0x0D"
    "c \<noteq> CHR ''#''" "c \<noteq> CHR '' ''"
proof -
  from assms have n: "(of_char c :: nat) = 45 \<or> 48 \<le> (of_char c :: nat) \<and> (of_char c :: nat) \<le> 57"
    by (auto simp: plain_def isDigit_def)
  then have a: "\<not> asciiSpace c" by (auto simp: asciiSpace_def)
  from n have b: "c \<noteq> CHR 0xC2" "c \<noteq> CHR 0xE1" "c \<noteq> CHR 0xE2" "c \<noteq> CHR 0xE3" by auto
  from n have c: "c \<noteq> CHR 0x85" "c \<noteq> CHR 0xA0" "c \<noteq> CHR 0x80" "c \<noteq> CHR 0xA8" "c \<noteq> CHR 0xA9"
    "c \<noteq> CHR 0xAF" "c \<noteq> CHR 0x9F" "\<not> (128::nat) \<le> of_char c" by auto
  show "spaceWidth (c # cs) = 0" using a b by (simp add: spaceWidth.simps)
  show "spaceWidthLast (c # cs) = 0" using a c by (simp add: spaceWidthLast.simps)
  show "c \<noteq> CHR 0x0A" "c \<noteq> CHR 0x0D" "c \<noteq> CHR ''#''" "c \<noteq> CHR '' ''" using n by auto
qed

lemma space_facts: "spaceWidth (CHR '' '' # cs) = 1" "spaceWidthLast (CHR '' '' # cs) = 1"
  by (simp_all add: spaceWidth.simps spaceWidthLast.simps asciiSpace_def)

lemma digitChar_facts: "n < 10 \<Longrightarrow> isDigit (digitChar n) \<and> digitVal (digitChar n) = n"
proof -
  have "\<forall>k\<in>set [0..<10]. isDigit (digitChar k) \<and> digitVal (digitChar k) = k"
    unfolding upt_10 by (simp add: digitChar_def isDigit_def digitVal_def)
  moreover assume "n < 10"
  ultimately show ?thesis by simp
qed

lemma FormatUint_digits: "FormatUint n \<noteq> [] \<and> list_all isDigit (FormatUint n)"
proof (induction n rule: FormatUint.induct)
  case (1 n)
  show ?case
  proof (cases "n < 10")
    case True
    then show ?thesis by (subst (1 2) FormatUint.simps) (simp add: digitChar_facts)
  next
    case False
    with 1 have "list_all isDigit (FormatUint (n div 10))" by simp
    moreover have "isDigit (digitChar (n mod 10))" by (simp add: digitChar_facts)
    ultimately show ?thesis using False by (subst (1 2) FormatUint.simps) simp
  qed
qed

lemma ParseUint_append:
  "ParseUint a (xs @ [c]) =
     (case ParseUint a xs of Inl e \<Rightarrow> Inl e
      | Inr m \<Rightarrow> if \<not> isDigit c then Inl ErrSyntax
                 else if 2 ^ 64 \<le> m * 10 + digitVal c then Inl ErrRange else Inr (m * 10 + digitVal c))"
  by (induction xs arbitrary: a) simp_all

lemma ParseUint_FormatUint: "n < 2 ^ 64 \<Longrightarrow> ParseUint 0 (FormatUint n) = Inr n"
proof (induction n rule: FormatUint.induct)
  case (1 n)
  show ?case
  proof (cases "n < 10")
    case True
    with 1(2) show ?thesis by (subst FormatUint.simps) (simp add: digitChar_facts)
  next
    case False
    have "n div 10 < 2 ^ 64" using 1(2) by (meson div_le_dividend le_less_trans)
    with 1(1) False have ih: "ParseUint 0 (FormatUint (n div 10)) = Inr (n div 10)" by simp
    have d: "isDigit (digitChar (n mod 10))" "digitVal (digitChar (n mod 10)) = n mod 10"
      by (simp_all add: digitChar_facts)
    have "n div 10 * 10 + n mod 10 = n" by simp
    with 1(2) have "\<not> 2 ^ 64 \<le> n div 10 * 10 + n mod 10" by simp
    with ih d False show ?thesis
      by (subst FormatUint.simps) (simp add: ParseUint_append del: ParseUint.simps)
  qed
qed

lemma FormatInt_plain: "FormatInt i \<noteq> [] \<and> list_all plain (FormatInt i)"
proof -
  have "list_all plain (FormatUint n)" for n
    using FormatUint_digits [of n] by (auto simp: list_all_iff plain_def)
  then show ?thesis using FormatUint_digits by (simp add: FormatInt_def plain_def)
qed

lemma Atoi_FormatInt:
  assumes "- (2 ^ 63) \<le> i" and "i < 2 ^ 63"
  shows "Atoi (FormatInt i) = (i, None)"
proof (cases "i < 0")
  case True
  let ?n = "nat (- i)"
  have n: "?n \<le> 2 ^ 63" using assms(1) True by (simp add: nat_le_iff)
  then have "?n < 2 ^ 64" by simp
  then have p: "ParseUint 0 (FormatUint ?n) = Inr ?n" by (rule ParseUint_FormatUint)
  have ne: "FormatUint ?n \<noteq> []" using FormatUint_digits by simp
  from True n p ne show ?thesis by (simp add: Atoi_def FormatInt_def)
next
  case False
  let ?n = "nat i"
  have n: "?n < 2 ^ 63" using assms(2) False by (simp add: nat_less_iff)
  then have "?n < 2 ^ 64" by simp
  then have p: "ParseUint 0 (FormatUint ?n) = Inr ?n" by (rule ParseUint_FormatUint)
  obtain c cs where f: "FormatUint ?n = c # cs" using FormatUint_digits [of ?n] by (cases "FormatUint ?n") auto
  with FormatUint_digits [of ?n] have "isDigit c" by simp
  then have c: "c \<noteq> CHR ''+''" "c \<noteq> CHR ''-''" by (auto simp: isDigit_def)
  from False n p c show ?thesis by (simp add: Atoi_def FormatInt_def f)
qed

lemma Atoi_range: "- (2 ^ 63) \<le> fst (Atoi s) \<and> fst (Atoi s) < 2 ^ 63"
  by (auto simp: Atoi_def Let_def split: list.splits sum.splits)

lemma Atoi_range': "Atoi s = (m, e) \<Longrightarrow> - (2 ^ 63) \<le> m \<and> m < 2 ^ 63"
  using Atoi_range [of s] by simp

subsection \<open>Lines of tokens\<close>

lemma TrimLeft_plain: "plain c \<Longrightarrow> TrimLeft (c # cs) = c # cs"
  by (subst TrimLeft.simps) (simp add: plain_facts)

lemma TrimLast_plain: "plain c \<Longrightarrow> TrimLast (c # cs) = c # cs"
  by (subst TrimLast.simps) (simp add: plain_facts)

lemma TrimLast_space: "TrimLast (CHR '' '' # cs) = TrimLast cs"
  by (subst TrimLast.simps) (simp add: space_facts)

lemma TrimSpace_plain:
  assumes "s \<noteq> []" and "plain (hd s)" and "plain (last s)"
  shows "TrimSpace s = s" "TrimSpace (s @ '' '') = s"
proof -
  obtain c cs where s: "s = c # cs" using assms(1) by (cases s) auto
  with assms(2) have c: "plain c" by simp
  have r: "rev s = last s # rev (butlast s)" using assms(1) by (metis append_butlast_last_id rev.simps(2) rev_rev_ident rev_swap singleton_rev_conv rev_append append_Cons append_Nil)
  have tl: "TrimLast (rev s) = rev s" by (subst (1 2) r) (rule TrimLast_plain [OF assms(3)])
  have l: "TrimLeft s = s" unfolding s by (rule TrimLeft_plain [OF c])
  show "TrimSpace s = s" by (simp add: TrimSpace_def l tl)
  have "TrimLeft (s @ '' '') = s @ '' ''" unfolding s append_Cons by (rule TrimLeft_plain [OF c])
  then show "TrimSpace (s @ '' '') = s" by (simp add: TrimSpace_def TrimLast_space tl)
qed

lemma FieldsFrom_plain: "list_all plain t \<Longrightarrow> FieldsFrom cur (t @ rest) = FieldsFrom (cur @ t) rest"
  by (induction t arbitrary: cur) (simp_all add: plain_facts)

lemma FieldsFrom_space: "FieldsFrom cur (CHR '' '' # rest) = (if cur = [] then [] else [cur]) @ FieldsFrom [] rest"
  by (simp add: space_facts)

lemma FieldsFrom_spaced:
  assumes "list_all (\<lambda>t. t \<noteq> [] \<and> list_all plain t) toks"
  shows "FieldsFrom [] (spaced toks @ rest) = toks @ FieldsFrom [] rest"
  using assms
proof (induction toks)
  case Nil
  then show ?case by (simp add: spaced_def)
next
  case (Cons t toks)
  then have t: "t \<noteq> []" "list_all plain t" by simp_all
  have "FieldsFrom [] (spaced (t # toks) @ rest) = FieldsFrom [] (t @ CHR '' '' # spaced toks @ rest)"
    by (simp add: spaced_def)
  also have "\<dots> = FieldsFrom t (CHR '' '' # spaced toks @ rest)"
    using FieldsFrom_plain [OF t(2), of "[]"] by simp
  also have "\<dots> = t # FieldsFrom [] (spaced toks @ rest)" using t(1) by (simp only: FieldsFrom_space) simp
  finally show ?case using Cons by simp
qed

text \<open>a line of tokens: all but the last followed by a blank\<close>

lemma line_facts:
  assumes "list_all (\<lambda>t. t \<noteq> [] \<and> list_all plain t) (ts @ [t])" and "s = spaced ts @ t"
  shows "s \<noteq> []" "plain (hd s)" "plain (last s)" "CHR 0x0A \<notin> set s" "Fields s = ts @ [t]"
    "\<not> HasPrefix s ''#''" "dropCR s = s" "dropCR (s @ '' '') = s @ '' ''"
proof -
  from assms(1) have t: "t \<noteq> []" "list_all plain t" and ts: "list_all (\<lambda>t. t \<noteq> [] \<and> list_all plain t) ts"
    by simp_all
  show ne: "s \<noteq> []" using t by (simp add: assms(2))
  have chars: "\<forall>c\<in>set s. plain c \<or> c = CHR '' ''"
    using assms(1) by (auto simp: assms(2) spaced_def list_all_iff)
  show "CHR 0x0A \<notin> set s"
  proof
    assume "CHR 0x0A \<in> set s"
    with chars have "plain (CHR 0x0A)" by auto
    from plain_facts(3) [OF this] show False by simp
  qed
  show hd: "plain (hd s)"
  proof (cases ts)
    case Nil
    with t show ?thesis by (cases t) (simp_all add: assms(2) spaced_def)
  next
    case (Cons u us)
    with ts have "u \<noteq> []" "list_all plain u" by simp_all
    then show ?thesis by (cases u) (simp_all add: assms(2) spaced_def Cons)
  qed
  show lst: "plain (last s)" using t by (simp add: assms(2) list_all_iff)
  have "FieldsFrom [] (spaced ts @ t) = ts @ FieldsFrom [] (t @ [])"
    using FieldsFrom_spaced [OF ts, of t] by simp
  also have "FieldsFrom [] (t @ []) = FieldsFrom ([] @ t) []" by (rule FieldsFrom_plain [OF t(2)])
  finally show "Fields s = ts @ [t]" using t by (simp add: Fields_def assms(2))
  show "\<not> HasPrefix s ''#''"
  proof
    assume "HasPrefix s ''#''"
    with ne have "hd s = CHR ''#''" by (cases s) (simp_all add: HasPrefix_def)
    with plain_facts(5) [OF hd] show False by simp
  qed
  show "dropCR s = s" using plain_facts(4) [OF lst] by (simp add: dropCR_def)
  show "dropCR (s @ '' '') = s @ '' ''" by (simp add: dropCR_def)
qed

lemma spaced_snoc: "spaced (ts @ [t]) = (spaced ts @ t) @ '' ''"
  by (simp add: spaced_def)

lemma FormatUint_length: "n < 10 ^ k \<Longrightarrow> 0 < k \<Longrightarrow> length (FormatUint n) \<le> k"
proof (induction k arbitrary: n)
  case 0
  then show ?case by simp
next
  case (Suc k)
  show ?case
  proof (cases "n < 10")
    case True
    then show ?thesis by (subst FormatUint.simps) simp
  next
    case False
    with Suc.prems have k: "0 < k" by (cases k) simp_all
    have "n div 10 < 10 ^ k" using Suc.prems(1) by (simp add: less_mult_imp_div_less mult.commute)
    from Suc.IH [OF this k] False show ?thesis by (subst FormatUint.simps) simp
  qed
qed

lemma FormatInt_length:
  assumes "- (2 ^ 63) \<le> i" and "i < 2 ^ 63"
  shows "length (FormatInt i) \<le> 21"
proof -
  have "nat (- i) < 10 ^ 20" "nat i < 10 ^ 20" using assms by (simp_all add: nat_less_iff)
  from FormatUint_length [OF this(1)] FormatUint_length [OF this(2)]
  show ?thesis by (simp add: FormatInt_def)
qed

lemma readNextLine_line:
  assumes "scanner_ok sc" and "pending sc = l @ CHR 0x0A # rest"
    and "list_all (\<lambda>t. t \<noteq> [] \<and> list_all plain t) (ts @ [t])"
    and "l = spaced ts @ t \<or> l = (spaced ts @ t) @ '' ''" and "length l < maxTokenSize"
  shows "\<exists>sc'. readNextLine sc = (spaced ts @ t, None, sc') \<and> pending sc' = rest \<and> scanner_ok sc'"
proof -
  let ?s = "spaced ts @ t"
  note f = line_facts [OF assms(3) refl]
  have nl: "CHR 0x0A \<notin> set l" using assms(4) f(4) by auto
  have tr: "TrimSpace (dropCR l) = ?s"
    using assms(4) f(7,8) TrimSpace_plain [OF f(1,2,3)] by auto
  from readNextLine_nl [OF assms(1,2) nl assms(5)] tr f(1,6) show ?thesis by simp
qed

lemma read_lines_tokens:
  assumes "scanner_ok sc"
    and "pending sc = concat (map (\<lambda>l. l @ [CHR 0x0A]) ls) @ rest"
    and "list_all2 (\<lambda>l toks. toks \<noteq> [] \<and> list_all (\<lambda>t. t \<noteq> [] \<and> list_all plain t) toks
            \<and> (l = spaced (butlast toks) @ last toks \<or> l = spaced toks) \<and> length l < maxTokenSize) ls rows"
  shows "\<exists>lines sc'. read_lines (length rows) sc = Some (lines, sc') \<and> map Fields lines = rows
           \<and> pending sc' = rest \<and> scanner_ok sc'"
  using assms(3,1,2)
proof (induction ls rows arbitrary: sc rule: list_all2_induct)
  case Nil
  then show ?case by simp
next
  case (Cons l ls toks rows)
  from Cons.hyps(1) have ne: "toks \<noteq> []" by simp
  then have sn: "toks = butlast toks @ [last toks]" by simp
  have ok: "list_all (\<lambda>t. t \<noteq> [] \<and> list_all plain t) (butlast toks @ [last toks])"
    using Cons.hyps(1) sn by simp
  let ?s = "spaced (butlast toks) @ last toks"
  have sp: "spaced toks = ?s @ '' ''" by (subst sn) (rule spaced_snoc)
  have l: "l = ?s \<or> l = ?s @ '' ''" using Cons.hyps(1) sp by auto
  have p: "pending sc = l @ CHR 0x0A # (concat (map (\<lambda>l. l @ [CHR 0x0A]) ls) @ rest)"
    using Cons.prems(2) by simp
  from readNextLine_line [OF Cons.prems(1) p ok l] Cons.hyps(1)
  obtain sc1 where r: "readNextLine sc = (?s, None, sc1)"
    and p1: "pending sc1 = concat (map (\<lambda>l. l @ [CHR 0x0A]) ls) @ rest" and ok1: "scanner_ok sc1"
    by auto
  from Cons.IH [OF ok1 p1] obtain lines sc' where
    rl: "read_lines (length rows) sc1 = Some (lines, sc')" and f: "map Fields lines = rows"
    and p': "pending sc' = rest" and ok': "scanner_ok sc'" by blast
  have "Fields ?s = toks" using line_facts(5) [OF ok refl] sn by simp
  with r rl f p' ok' show ?case by simp
qed

subsection \<open>What Save writes\<close>

lemma Save_row:
  assumes "0 \<le> i" and "nat i < length d" and "length (d ! nat i) = nat w" and "0 \<le> j" and "j \<le> w"
  shows "for_loop j w (\<lambda>j out. bind (load2 d i j) (\<lambda>v. Ok (out @ FormatInt (toInt v) @ '' ''))) out
         = Ok (out @ row_text toInt (drop (nat j) (d ! nat i)))"
  using assms(4,5)
proof (induction "nat (w - j)" arbitrary: j out)
  case 0
  then have "j = w" by simp
  then show ?case using assms(3) by (simp add: for_loop_done row_text_def)
next
  case (Suc n)
  then have jw: "j < w" by simp
  with Suc.prems assms(3) have jl: "nat j < length (d ! nat i)" by simp
  have ld: "load2 d i j = Ok (d ! nat i ! nat j)" using assms(1,2) Suc.prems(1) jl by (rule load2_Ok)
  have ih: "for_loop (j + 1) w (\<lambda>j out. bind (load2 d i j) (\<lambda>v. Ok (out @ FormatInt (toInt v) @ '' '')))
              (out @ FormatInt (toInt (d ! nat i ! nat j)) @ '' '')
            = Ok ((out @ FormatInt (toInt (d ! nat i ! nat j)) @ '' '') @ row_text toInt (drop (nat (j + 1)) (d ! nat i)))"
    using Suc.hyps(2) Suc.prems jw by (intro Suc.hyps(1)) simp_all
  have dr: "drop (nat j) (d ! nat i) = d ! nat i ! nat j # drop (nat (j + 1)) (d ! nat i)"
    using jl Suc.prems(1) by (simp add: nat_add_distrib Cons_nth_drop_Suc)
  show ?case by (simp add: for_loop_step [OF jw] ld ih) (simp add: dr row_text_def)
qed

lemma Save_rows_rect:
  assumes "rect (height pbm) (width pbm) (data pbm)" and "0 \<le> width pbm"
  shows "Save_rows toInt pbm out = Ok (out @ body_text toInt (data pbm))"
proof -
  let ?d = "data pbm" and ?w = "width pbm" and ?h = "height pbm"
  let ?inner = "\<lambda>i out. bind (for_loop 0 ?w (\<lambda>j out. bind (load2 ?d i j) (\<lambda>v. Ok (out @ FormatInt (toInt v) @ '' ''))) out)
         (\<lambda>out. Ok (out @ [CHR 0x0A]))"
  from assms(1) have len: "length ?d = nat ?h" and rows: "\<And>k. k < length ?d \<Longrightarrow> length (?d ! k) = nat ?w"
    by (simp_all add: rect_def list_all_length)
  have "for_loop i ?h ?inner out = Ok (out @ body_text toInt (drop (nat i) ?d))"
    if "0 \<le> i" for i out
    using that
  proof (induction "nat (?h - i)" arbitrary: i out)
    case 0
    then have "\<not> i < ?h" "length ?d \<le> nat i" using len by simp_all
    then show ?case by (simp add: for_loop_done body_text_def)
  next
    case (Suc n)
    then have ih': "i < ?h" by simp
    with Suc.prems len have il: "nat i < length ?d" by simp
    have row: "for_loop 0 ?w (\<lambda>j out. bind (load2 ?d i j) (\<lambda>v. Ok (out @ FormatInt (toInt v) @ '' ''))) out
        = Ok (out @ row_text toInt (drop (nat 0) (?d ! nat i)))"
      using Suc.prems il rows [OF il] assms(2) by (intro Save_row) simp_all
    have ih: "for_loop (i + 1) ?h ?inner (out @ row_text toInt (?d ! nat i) @ [CHR 0x0A])
        = Ok ((out @ row_text toInt (?d ! nat i) @ [CHR 0x0A]) @ body_text toInt (drop (nat (i + 1)) ?d))"
      using Suc.hyps(2) Suc.prems by (intro Suc.hyps(1)) simp_all
    have dr: "drop (nat i) ?d = ?d ! nat i # drop (nat (i + 1)) ?d"
      using il Suc.prems by (simp add: nat_add_distrib Cons_nth_drop_Suc)
    show ?case by (simp add: for_loop_step [OF ih'] row ih) (simp add: dr body_text_def)
  qed
  from this [of 0 out] show ?thesis by (simp add: Save_rows_def)
qed

lemma Save_rows_empty:
  assumes "\<not> (0 < width pbm \<and> 0 < height pbm)"
  shows "\<exists>body. Save_rows toInt pbm out = Ok (out @ body)"
proof -
  let ?d = "data pbm" and ?w = "width pbm" and ?h = "height pbm"
  let ?inner = "\<lambda>i out. bind (for_loop 0 ?w (\<lambda>j out. bind (load2 ?d i j) (\<lambda>v. Ok (out @ FormatInt (toInt v) @ '' ''))) out)
         (\<lambda>out. Ok (out @ [CHR 0x0A]))"
  show ?thesis
  proof (cases "0 < ?h")
    case False
    then have "Save_rows toInt pbm out = Ok (out @ [])" by (simp add: Save_rows_def for_loop_done)
    then show ?thesis by blast
  next
    case True
    with assms have w: "\<not> 0 < ?w" by simp
    have "\<exists>t. for_loop 0 ?h ?inner out = Ok t \<and> (\<exists>body. t = out @ body)"
    proof (rule for_loop_inv [where I = "\<lambda>k t. \<exists>body. t = out @ body"])
      show "\<exists>body. out = out @ body" by simp
      show "0 \<le> ?h" using True by simp
      fix k t
      assume "\<exists>body. t = out @ body"
      then obtain body where "t = out @ body" by blast
      then have "?inner k t = Ok (out @ body @ [CHR 0x0A])" by (simp add: for_loop_done [OF w])
      then show "\<exists>t'. ?inner k t = Ok t' \<and> (\<exists>body. t' = out @ body)" by blast
    qed
    then show ?thesis by (auto simp: Save_rows_def)
  qed
qed

lemma make_data_eq: "make_data esz h w z = Ok d \<Longrightarrow> d = replicate (nat h) (replicate (nat w) z)"
  by (auto simp: make_data_def split: if_splits)

subsection \<open>Reading back what Save wrote\<close>

lemma row_text_spaced: "row_text toInt row = spaced (map (\<lambda>v. FormatInt (toInt v)) row)"
  by (simp add: row_text_def spaced_def comp_def)

lemma ascii_pixels_row:
  assumes "Fields line = map (\<lambda>v. FormatInt (toInt v)) row" and "length row = W"
    and "\<And>v. conv (toInt v) = v \<and> - (2 ^ 63) \<le> toInt v \<and> toInt v < 2 ^ 63"
  shows "ascii_pixels conv W z line = row" "length (Fields line) \<le> W"
    "list_all (\<lambda>token. snd (Atoi token) = None) (Fields line)"
proof -
  have a: "Atoi (FormatInt (toInt v)) = (toInt v, None)" for v
    using assms(3) [of v] by (intro Atoi_FormatInt) simp_all
  show "ascii_pixels conv W z line = row"
    using assms(2,3) by (simp add: ascii_pixels_def assms(1) a comp_def)
  show "length (Fields line) \<le> W" using assms(2) by (simp add: assms(1))
  show "list_all (\<lambda>token. snd (Atoi token) = None) (Fields line)"
    by (simp add: assms(1) list_all_iff a)
qed

lemma ascii_pixels_rows:
  assumes "map Fields lines = map (map (\<lambda>v. FormatInt (toInt v))) d"
    and "list_all (\<lambda>row. length row = W) d"
    and "\<And>v. conv (toInt v) = v \<and> - (2 ^ 63) \<le> toInt v \<and> toInt v < 2 ^ 63"
  shows "map (ascii_pixels conv W z) lines = d \<and> rows_fit W lines"
  using assms(1,2)
proof (induction d arbitrary: lines)
  case Nil
  then show ?case by (simp add: rows_fit_def)
next
  case (Cons row d)
  from Cons.prems(1) obtain line lines' where l: "lines = line # lines'"
    and f: "Fields line = map (\<lambda>v. FormatInt (toInt v)) row"
    and r: "map Fields lines' = map (map (\<lambda>v. FormatInt (toInt v))) d"
    by (cases lines) auto
  from Cons.prems(2) have w: "length row = W" "list_all (\<lambda>row. length row = W) d" by simp_all
  note p = ascii_pixels_row(1) [OF f w(1) assms(3), where z = z] ascii_pixels_row(2,3) [OF f w(1) assms(3)]
  from Cons.IH [OF r w(2)] p show ?case by (simp add: l rows_fit_def)
qed

lemma read_body:
  assumes "scanner_ok sc" and "pending sc = concat (map (\<lambda>l. l @ [CHR 0x0A]) ls) @ rest"
    and "rect h w d" and "0 < w" and "0 < h"
    and "list_all2 (\<lambda>l row. (l = row_text toInt row \<or> l @ '' '' = row_text toInt row)
                       \<and> length l < maxTokenSize) ls d"
    and "\<And>v. conv (toInt v) = v \<and> - (2 ^ 63) \<le> toInt v \<and> toInt v < 2 ^ 63"
  shows "\<exists>sc'. ascii_body conv h (replicate (nat h) (replicate (nat w) z)) sc = Ok (d, sc')
           \<and> pending sc' = rest \<and> scanner_ok sc'"
proof -
  let ?rows = "map (map (\<lambda>v. FormatInt (toInt v))) d"
  from assms(3) have len: "length d = nat h" and rows: "list_all (\<lambda>row. length row = nat w) d"
    by (simp_all add: rect_def)
  from assms(6) have ll: "length ls = length d"
    and q: "\<And>i. i < length d \<Longrightarrow> (ls ! i = row_text toInt (d ! i) \<or> ls ! i @ '' '' = row_text toInt (d ! i))
                  \<and> length (ls ! i) < maxTokenSize"
    by (simp_all add: list_all2_conv_all_nth)
  have "list_all2 (\<lambda>l toks. toks \<noteq> [] \<and> list_all (\<lambda>t. t \<noteq> [] \<and> list_all plain t) toks
            \<and> (l = spaced (butlast toks) @ last toks \<or> l = spaced toks) \<and> length l < maxTokenSize)
          ls ?rows"
    unfolding list_all2_conv_all_nth
  proof (intro conjI allI impI)
    show "length ls = length ?rows" by (simp add: ll)
    fix i assume "i < length ls"
    then have i: "i < length d" by (simp add: ll)
    let ?toks = "map (\<lambda>v. FormatInt (toInt v)) (d ! i)"
    have r: "?rows ! i = ?toks" using i by simp
    from rows i have "length (d ! i) = nat w" by (simp add: list_all_length)
    with assms(4) have ne: "?toks \<noteq> []" by auto
    have ok: "list_all (\<lambda>t. t \<noteq> [] \<and> list_all plain t) ?toks"
      by (simp add: list_all_iff FormatInt_plain [unfolded list_all_iff])
    have sp: "row_text toInt (d ! i) = (spaced (butlast ?toks) @ last ?toks) @ '' ''"
      using spaced_snoc [of "butlast ?toks" "last ?toks"] ne by (simp add: row_text_spaced)
    from q [OF i] sp have l: "ls ! i = spaced (butlast ?toks) @ last ?toks \<or> ls ! i = spaced ?toks"
      by (auto simp: row_text_spaced)
    show "?rows ! i \<noteq> []" using ne r by simp
    show "list_all (\<lambda>t. t \<noteq> [] \<and> list_all plain t) (?rows ! i)" using ok r by simp
    show "ls ! i = spaced (butlast (?rows ! i)) @ last (?rows ! i) \<or> ls ! i = spaced (?rows ! i)"
      using l r by simp
    show "length (ls ! i) < maxTokenSize" using q [OF i] by simp
  qed
  from read_lines_tokens [OF assms(1,2) this] obtain lines sc' where
    rl: "read_lines (length ?rows) sc = Some (lines, sc')" and f: "map Fields lines = ?rows"
    and p': "pending sc' = rest" and ok': "scanner_ok sc'" by blast
  from rl len have rl': "read_lines (nat h) sc = Some (lines, sc')" by simp
  from ascii_pixels_rows [OF f rows assms(7), where z = z]
  have m: "map (ascii_pixels conv (nat w) z) lines = d" and fit: "rows_fit (nat w) lines" by simp_all
  from ascii_body_Ok [OF assms(5) rl' fit, of conv z] m p' ok' show ?thesis by simp
qed

lemma reread_header:
  assumes "magic = ''P1'' \<or> magic = ''P2''"
    and "- (2 ^ 63) \<le> w" and "w < 2 ^ 63" and "- (2 ^ 63) \<le> h" and "h < 2 ^ 63"
  shows "\<exists>sc1 sc2 dims. readNextLine (NewScanner (magic @ [CHR 0x0A] @ FormatInt w @ '' '' @ FormatInt h @ [CHR 0x0A] @ rest))
             = (magic, None, sc1)
           \<and> readNextLine sc1 = (dims, None, sc2) \<and> Fields dims = [FormatInt w, FormatInt h]
           \<and> pending sc2 = rest \<and> scanner_ok sc2"
proof -
  let ?dims = "FormatInt w @ '' '' @ FormatInt h"
  let ?text = "magic @ [CHR 0x0A] @ ?dims @ [CHR 0x0A] @ rest"
  have t: "TrimSpace (dropCR ''P1'') = ''P1''" "TrimSpace (dropCR ''P2'') = ''P2''"
    by (simp_all add: text_eval)
  have m: "CHR 0x0A \<notin> set magic" "length magic < maxTokenSize" "TrimSpace (dropCR magic) = magic"
    "magic \<noteq> []" "\<not> HasPrefix magic ''#''"
    using assms(1) t by (auto simp: maxTokenSize_def HasPrefix_def)
  have p0: "pending (NewScanner ?text) = magic @ CHR 0x0A # (?dims @ [CHR 0x0A] @ rest)"
    by (simp add: NewScanner_ok)
  from readNextLine_nl [OF NewScanner_ok(1) p0 m(1,2)] m(3,4,5)
  obtain sc1 where l1: "readNextLine (NewScanner ?text) = (magic, None, sc1)"
    and p1: "pending sc1 = ?dims @ [CHR 0x0A] @ rest" and ok1: "scanner_ok sc1" by auto
  have ok: "list_all (\<lambda>t. t \<noteq> [] \<and> list_all plain t) ([FormatInt w] @ [FormatInt h])"
    by (simp add: FormatInt_plain)
  have d: "?dims = spaced [FormatInt w] @ FormatInt h" by (simp add: spaced_def)
  have len: "length ?dims < maxTokenSize"
    using FormatInt_length [OF assms(2,3)] FormatInt_length [OF assms(4,5)] by (simp add: maxTokenSize_def)
  have p1': "pending sc1 = ?dims @ CHR 0x0A # rest" using p1 by simp
  from readNextLine_line [OF ok1 p1' ok disjI1 [OF d] len, unfolded d [symmetric]]
  obtain sc2 where l2: "readNextLine sc1 = (?dims, None, sc2)" and p2: "pending sc2 = rest"
    and ok2: "scanner_ok sc2" by blast
  have "Fields ?dims = [FormatInt w, FormatInt h]" using line_facts(5) [OF ok d] by simp
  with l1 l2 p2 ok2 show ?thesis
    by (intro exI [of _ sc1] exI [of _ sc2] exI [of _ ?dims]) simp
qed

lemma reread_max:
  assumes "scanner_ok sc" and "pending sc = FormatInt m @ [CHR 0x0A] @ rest"
    and "- (2 ^ 63) \<le> m" and "m < 2 ^ 63"
  shows "\<exists>sc'. readNextLine sc = (FormatInt m, None, sc') \<and> pending sc' = rest \<and> scanner_ok sc'"
proof -
  have ok: "list_all (\<lambda>t. t \<noteq> [] \<and> list_all plain t) ([] @ [FormatInt m])" by (simp add: FormatInt_plain)
  have d: "FormatInt m = spaced [] @ FormatInt m" by (simp add: spaced_def)
  have len: "length (FormatInt m) < maxTokenSize"
    using FormatInt_length [OF assms(3,4)] by (simp add: maxTokenSize_def)
  have p: "pending sc = FormatInt m @ CHR 0x0A # rest" using assms(2) by simp
  from readNextLine_line [OF assms(1) p ok disjI1 [OF d] len, unfolded d [symmetric]] show ?thesis .
qed

lemma scanner_long_pending: "scanner_ok s \<Longrightarrow> maxTokenSize < length (pending s) \<Longrightarrow> err s = None"
  by (auto simp: scanner_ok_def pending_def bufEnd_def)

lemma read_P1:
  assumes "- (2 ^ 63) \<le> w" and "w < 2 ^ 63" and "- (2 ^ 63) \<le> h" and "h < 2 ^ 63"
    and "0 < w" and "0 < h" and "make_data esz h w z = Ok d0" and "rect h w d"
    and "list_all2 (\<lambda>l row. (l = row_text toInt row \<or> l @ '' '' = row_text toInt row)
                       \<and> length l < maxTokenSize) ls d"
    and "\<And>v. conv (toInt v) = v \<and> - (2 ^ 63) \<le> toInt v \<and> toInt v < 2 ^ 63"
  shows "readPBM esz z conv ofBit
           (''P1'' @ [CHR 0x0A] @ FormatInt w @ '' '' @ FormatInt h @ [CHR 0x0A]
              @ concat (map (\<lambda>l. l @ [CHR 0x0A]) ls) @ rest)
         = Ok \<lparr>data = d, width = w, height = h, magicNumber = ''P1''\<rparr>"
proof -
  let ?body = "concat (map (\<lambda>l. l @ [CHR 0x0A]) ls) @ rest"
  from reread_header [OF disjI1 [OF refl] assms(1-4), of ?body] obtain sc1 sc2 dims where
    l1: "readNextLine (NewScanner (''P1'' @ [CHR 0x0A] @ FormatInt w @ '' '' @ FormatInt h @ [CHR 0x0A] @ ?body))
           = (''P1'', None, sc1)"
    and l2: "readNextLine sc1 = (dims, None, sc2)" and f: "Fields dims = [FormatInt w, FormatInt h]"
    and p2: "pending sc2 = ?body" and ok2: "scanner_ok sc2" by blast
  have a: "Atoi (FormatInt w) = (w, None)" "Atoi (FormatInt h) = (h, None)"
    using assms(1-4) by (simp_all add: Atoi_FormatInt)
  have md: "make_data esz h w z = Ok (replicate (nat h) (replicate (nat w) z))"
    using assms(7) make_data_eq [OF assms(7)] by simp
  from read_body [OF ok2 p2 assms(8,5,6,9,10), where z = z] obtain sc' where
    b: "ascii_body conv h (replicate (nat h) (replicate (nat w) z)) sc2 = Ok (d, sc')" by blast
  from l1 l2 f a md b assms(5,6) show ?thesis by (simp add: readPBM_def)
qed

lemma read_P1_empty:
  assumes "- (2 ^ 63) \<le> w" and "w < 2 ^ 63" and "- (2 ^ 63) \<le> h" and "h < 2 ^ 63"
    and "\<not> (0 < w \<and> 0 < h)"
  shows "readPBM esz z conv ofBit
           (''P1'' @ [CHR 0x0A] @ FormatInt w @ '' '' @ FormatInt h @ [CHR 0x0A] @ rest)
         = Ok \<lparr>data = [], width = w, height = h, magicNumber = ''P1''\<rparr>"
proof -
  from reread_header [OF disjI1 [OF refl] assms(1-4), of rest] obtain sc1 sc2 dims where
    l1: "readNextLine (NewScanner (''P1'' @ [CHR 0x0A] @ FormatInt w @ '' '' @ FormatInt h @ [CHR 0x0A] @ rest))
           = (''P1'', None, sc1)"
    and l2: "readNextLine sc1 = (dims, None, sc2)" and f: "Fields dims = [FormatInt w, FormatInt h]"
    by blast
  have a: "Atoi (FormatInt w) = (w, None)" "Atoi (FormatInt h) = (h, None)"
    using assms(1-4) by (simp_all add: Atoi_FormatInt)
  from l1 l2 f a assms(5) show ?thesis by (auto simp: readPBM_def)
qed

lemma read_P1_too_long:
  assumes "- (2 ^ 63) \<le> w" and "w < 2 ^ 63" and "- (2 ^ 63) \<le> h" and "h < 2 ^ 63"
    and "0 < w" and "0 < h" and "make_data esz h w z = Ok d0"
    and "CHR 0x0A \<notin> set l" and "maxTokenSize \<le> length l"
  shows "readPBM esz z conv ofBit
           (''P1'' @ [CHR 0x0A] @ FormatInt w @ '' '' @ FormatInt h @ [CHR 0x0A] @ l @ [CHR 0x0A] @ rest)
         = Err ErrTooLong"
proof -
  let ?body = "l @ [CHR 0x0A] @ rest"
  from reread_header [OF disjI1 [OF refl] assms(1-4), of ?body] obtain sc1 sc2 dims where
    l1: "readNextLine (NewScanner (''P1'' @ [CHR 0x0A] @ FormatInt w @ '' '' @ FormatInt h @ [CHR 0x0A] @ ?body))
           = (''P1'', None, sc1)"
    and l2: "readNextLine sc1 = (dims, None, sc2)" and f: "Fields dims = [FormatInt w, FormatInt h]"
    and p2: "pending sc2 = ?body" and ok2: "scanner_ok sc2" by blast
  have a: "Atoi (FormatInt w) = (w, None)" "Atoi (FormatInt h) = (h, None)"
    using assms(1-4) by (simp_all add: Atoi_FormatInt)
  have "maxTokenSize < length (pending sc2)" using assms(9) by (simp add: p2)
  with ok2 have e: "err sc2 = None" by (rule scanner_long_pending)
  from readNextLine_too_long [OF ok2 e p2 assms(8,9)] obtain sc3 where
    l3: "readNextLine sc2 = ([], Some ErrTooLong, sc3)" by blast
  have "ascii_row conv 0 (d0, sc2) = Err ErrTooLong" by (simp add: ascii_row_def l3)
  then have "ascii_body conv h d0 sc2 = Err ErrTooLong"
    using assms(6) by (simp add: ascii_body_def for_loop_step)
  with l1 l2 f a assms(5,6,7) show ?thesis by (simp add: readPBM_def)
qed

lemma read_P2:
  assumes "os_Open fs name =
      Inr (''P2'' @ [CHR 0x0A] @ FormatInt w @ '' '' @ FormatInt h @ [CHR 0x0A] @ FormatInt m @ [CHR 0x0A]
              @ concat (map (\<lambda>l. l @ [CHR 0x0A]) ls) @ rest)"
    and "- (2 ^ 63) \<le> w" and "w < 2 ^ 63" and "- (2 ^ 63) \<le> h" and "h < 2 ^ 63"
    and "- (2 ^ 63) \<le> m" and "m < 2 ^ 63"
    and "0 < w" and "0 < h" and "make_data 1 h w (0::byte) = Ok d0" and "rect h w d"
    and "list_all2 (\<lambda>l row. (l = row_text uint row \<or> l @ '' '' = row_text uint row)
                       \<and> length l < maxTokenSize) ls d"
  shows "ReadPGM fs name = Ok \<lparr>data = d, width = w, height = h, magicNumber = ''P2'', max_value = m\<rparr>"
proof -
  let ?body = "concat (map (\<lambda>l. l @ [CHR 0x0A]) ls) @ rest"
  let ?rest = "FormatInt m @ [CHR 0x0A] @ ?body"
  from reread_header [OF disjI2 [OF refl] assms(2-5), of ?rest] obtain sc1 sc2 dims where
    l1: "readNextLine (NewScanner (''P2'' @ [CHR 0x0A] @ FormatInt w @ '' '' @ FormatInt h @ [CHR 0x0A] @ ?rest))
           = (''P2'', None, sc1)"
    and l2: "readNextLine sc1 = (dims, None, sc2)" and f: "Fields dims = [FormatInt w, FormatInt h]"
    and p2: "pending sc2 = ?rest" and ok2: "scanner_ok sc2" by blast
  from reread_max [OF ok2 p2 assms(6,7)] obtain sc3 where
    l3: "readNextLine sc2 = (FormatInt m, None, sc3)" and p3: "pending sc3 = ?body"
    and ok3: "scanner_ok sc3" by blast
  have a: "Atoi (FormatInt w) = (w, None)" "Atoi (FormatInt h) = (h, None)" "Atoi (FormatInt m) = (m, None)"
    using assms(2-7) by (simp_all add: Atoi_FormatInt)
  have md: "make_data 1 h w (0::byte) = Ok (replicate (nat h) (replicate (nat w) 0))"
    using assms(10) make_data_eq [OF assms(10)] by simp
  have c: "word_of_int (uint v) = v \<and> - (2 ^ 63) \<le> uint v \<and> uint v < 2 ^ 63" for v :: byte
  proof -
    have "uint v < 2 ^ LENGTH(8)" by (rule uint_lt2p)
    then have u: "uint v < 256" by simp
    have l: "0 \<le> uint v" by (rule uint_nonnegative)
    show ?thesis
    proof (intro conjI)
      show "word_of_int (uint v) = v" by simp
      have "- (2 ^ 63) \<le> (0::int)" by simp
      then show "- (2 ^ 63) \<le> uint v" using l by (rule order_trans)
      have "(256::int) < 2 ^ 63" by simp
      with u show "uint v < 2 ^ 63" by (rule less_trans)
    qed
  qed
  from read_body [OF ok3 p3 assms(11,8,9,12) c, where z = 0] obtain sc' where
    b: "ascii_body word_of_int h (replicate (nat h) (replicate (nat w) (0::byte))) sc3 = Ok (d, sc')" by blast
  from assms(1) l1 l2 l3 f a md b assms(8,9) show ?thesis by (simp add: ReadPGM_def)
qed

lemma read_P2_empty:
  assumes "os_Open fs name =
      Inr (''P2'' @ [CHR 0x0A] @ FormatInt w @ '' '' @ FormatInt h @ [CHR 0x0A] @ FormatInt m @ [CHR 0x0A] @ rest)"
    and "- (2 ^ 63) \<le> w" and "w < 2 ^ 63" and "- (2 ^ 63) \<le> h" and "h < 2 ^ 63"
    and "- (2 ^ 63) \<le> m" and "m < 2 ^ 63"
    and "\<not> (0 < w \<and> 0 < h)"
  shows "ReadPGM fs name = Ok \<lparr>data = [], width = w, height = h, magicNumber = ''P2'', max_value = m\<rparr>"
proof -
  let ?rest = "FormatInt m @ [CHR 0x0A] @ rest"
  from reread_header [OF disjI2 [OF refl] assms(2-5), of ?rest] obtain sc1 sc2 dims where
    l1: "readNextLine (NewScanner (''P2'' @ [CHR 0x0A] @ FormatInt w @ '' '' @ FormatInt h @ [CHR 0x0A] @ ?rest))
           = (''P2'', None, sc1)"
    and l2: "readNextLine sc1 = (dims, None, sc2)" and f: "Fields dims = [FormatInt w, FormatInt h]"
    and p2: "pending sc2 = ?rest" and ok2: "scanner_ok sc2" by blast
  from reread_max [OF ok2 p2 assms(6,7)] obtain sc3 where
    l3: "readNextLine sc2 = (FormatInt m, None, sc3)" by blast
  have a: "Atoi (FormatInt w) = (w, None)" "Atoi (FormatInt h) = (h, None)" "Atoi (FormatInt m) = (m, None)"
    using assms(2-7) by (simp_all add: Atoi_FormatInt)
  from assms(1) l1 l2 l3 f a assms(8) show ?thesis by (auto simp: ReadPGM_def)
qed

lemma readPBM_int64:
  assumes "readPBM esz z ofInt ofBit file = Ok g"
  shows "- (2 ^ 63) \<le> width g \<and> width g < 2 ^ 63 \<and> - (2 ^ 63) \<le> height g \<and> height g < 2 ^ 63"
proof -
  obtain magic e1 sc1 where l1: "readNextLine (NewScanner file) = (magic, e1, sc1)"
    by (metis prod.exhaust)
  obtain dims e2 sc2 where l2: "readNextLine sc1 = (dims, e2, sc2)" by (metis prod.exhaust)
  define w h where "w = fst (Atoi (Fields dims ! 0))" and "h = fst (Atoi (Fields dims ! 1))"
  from assms l1 have e1: "e1 = None" and m: "magic = ''P1'' \<or> magic = ''P4''"
    by (auto simp: readPBM_def split: option.splits if_splits)
  from assms l1 l2 e1 m have e2: "e2 = None" and f: "length (Fields dims) = 2"
    by (auto simp: readPBM_def Let_def split: option.splits if_splits)
  have "width g = w \<and> height g = h"
  proof (cases "0 < w \<and> 0 < h")
    case False
    with assms l1 l2 e1 e2 m f have "g = \<lparr>data = [], width = w, height = h, magicNumber = magic\<rparr>"
      by (auto simp: readPBM_def Let_def w_def h_def)
    then show ?thesis by simp
  next
    case True
    with assms l1 l2 e1 e2 m f obtain d0 where md: "make_data esz h w z = Ok d0"
      and rest: "(if magic = ''P1'' then
                   bind (ascii_body ofInt h d0 sc2) (\<lambda>(d, sc).
                     Ok \<lparr>data = d, width = w, height = h, magicNumber = magic\<rparr>)
                 else bind (P4_body ofBit w h d0 sc2) (\<lambda>(d, buffer, sc).
                     Ok \<lparr>data = d, width = w, height = h, magicNumber = magic\<rparr>)) = Ok g"
      by (auto simp: readPBM_def Let_def w_def h_def bind_eq_Ok)
    then show ?thesis by (auto simp: bind_eq_Ok split: if_splits)
  qed
  with Atoi_range [of "Fields dims ! 0"] Atoi_range [of "Fields dims ! 1"] show ?thesis
    by (simp add: w_def h_def)
qed

lemma ReadPGM_facts:
  assumes "ReadPGM fs filename = Ok g"
  shows "- (2 ^ 63) \<le> width g \<and> width g < 2 ^ 63 \<and> - (2 ^ 63) \<le> height g \<and> height g < 2 ^ 63
       \<and> - (2 ^ 63) \<le> max_value g \<and> max_value g < 2 ^ 63
       \<and> (0 < width g \<and> 0 < height g \<longrightarrow> (\<exists>d0. make_data 1 (height g) (width g) (0::byte) = Ok d0))"
proof -
  from assms obtain content where o: "os_Open fs filename = Inr content"
    by (auto simp: ReadPGM_def split: sum.splits)
  obtain magic e1 sc1 where l1: "readNextLine (NewScanner content) = (magic, e1, sc1)"
    by (metis prod.exhaust)
  obtain dims e2 sc2 where l2: "readNextLine sc1 = (dims, e2, sc2)" by (metis prod.exhaust)
  obtain maxStr e3 sc3 where l3: "readNextLine sc2 = (maxStr, e3, sc3)" by (metis prod.exhaust)
  obtain mx e4 where l4: "Atoi maxStr = (mx, e4)" by (metis prod.exhaust)
  define w h where "w = fst (Atoi (Fields dims ! 0))" and "h = fst (Atoi (Fields dims ! 1))"
  from assms o l1 have e1: "e1 = None" and m: "magic = ''P2'' \<or> magic = ''P5''"
    by (auto simp: ReadPGM_def split: option.splits if_splits)
  from assms o l1 l2 e1 m have e2: "e2 = None" and f: "length (Fields dims) = 2"
    by (auto simp: ReadPGM_def Let_def split: option.splits if_splits)
  from assms o l1 l2 l3 l4 e1 e2 m f have e3: "e3 = None" and e4: "e4 = None"
    by (auto simp: ReadPGM_def Let_def split: option.splits if_splits)
  have "width g = w \<and> height g = h \<and> max_value g = mx
      \<and> (0 < w \<and> 0 < h \<longrightarrow> (\<exists>d0. make_data 1 h w (0::byte) = Ok d0))"
  proof (cases "0 < w \<and> 0 < h")
    case False
    with assms o l1 l2 l3 l4 e1 e2 e3 e4 m f
    have "g = \<lparr>data = [], width = w, height = h, magicNumber = magic, max_value = mx\<rparr>"
      by (auto simp: ReadPGM_def Let_def w_def h_def)
    with False show ?thesis by auto
  next
    case True
    with assms o l1 l2 l3 l4 e1 e2 e3 e4 m f obtain d0 where md: "make_data 1 h w (0::byte) = Ok d0"
      and rest: "(if magic = ''P2'' then
                   bind (ascii_body word_of_int h d0 sc3) (\<lambda>(d, sc).
                     Ok \<lparr>data = d, width = w, height = h, magicNumber = magic, max_value = mx\<rparr>)
                 else bind (P5_body w h d0 sc3) (\<lambda>(d, sc).
                     Ok \<lparr>data = d, width = w, height = h, magicNumber = magic, max_value = mx\<rparr>)) = Ok g"
      by (auto simp: ReadPGM_def Let_def w_def h_def bind_eq_Ok)
    from rest have "width g = w \<and> height g = h \<and> max_value g = mx"
      by (auto simp: bind_eq_Ok split: if_splits)
    with md show ?thesis by blast
  qed
  with Atoi_range [of "Fields dims ! 0"] Atoi_range [of "Fields dims ! 1"] Atoi_range' [OF l4]
  show ?thesis by (simp add: w_def h_def)
qed

lemma PBM_round_trip:
  assumes rd: "ReadPBM fs filename = Ok pbm" and mg: "magicNumber pbm = ''P1''"
    and rows: "\<forall>row\<in>set (data pbm). length (row_text (\<lambda>b. if b then 1 else 0) row) < maxTokenSize"
  shows "\<exists>fs'' e. PBM_Save pbm fs' space out = Ok (fs'', e)
           \<and> (e = None \<longrightarrow> ReadPBM fs'' out = Ok pbm)"
proof -
  let ?toInt = "\<lambda>b::bool. if b then 1 else (0::int)"
  let ?w = "width pbm" and ?h = "height pbm"
  let ?hdr = "magicNumber pbm @ ''\<newline>'' @ FormatInt ?w @ '' '' @ FormatInt ?h @ ''\<newline>''"
  from rd obtain content where rp: "readPBM 1 False (\<lambda>pixel. pixel = 1) (\<lambda>bit. bit) content = Ok pbm"
    by (auto simp: ReadPBM_def split: sum.splits)
  note r = readPBM_rectangular [OF rp]
  from readPBM_int64 [OF rp] have i: "- (2 ^ 63) \<le> ?w" "?w < 2 ^ 63" "- (2 ^ 63) \<le> ?h" "?h < 2 ^ 63"
    by simp_all
  have c: "((?toInt v) = 1) = v \<and> - (2 ^ 63) \<le> ?toInt v \<and> ?toInt v < 2 ^ 63" for v by simp
  obtain body where sv: "Save_rows ?toInt pbm ?hdr = Ok (?hdr @ body)"
    and rb: "readPBM 1 False (\<lambda>pixel. pixel = 1) (\<lambda>bit. bit) (?hdr @ body) = Ok pbm"
  proof (cases "0 < ?w \<and> 0 < ?h")
    case True
    with r have rect: "rect ?h ?w (data pbm)" by (simp add: rectangular_def)
    from readPBM_cases [OF rp] True obtain d0 where md: "make_data 1 ?h ?w False = Ok d0" by auto
    have sv: "Save_rows ?toInt pbm ?hdr = Ok (?hdr @ body_text ?toInt (data pbm))"
      using rect True by (intro Save_rows_rect) simp_all
    have la: "list_all2 (\<lambda>l row. (l = row_text ?toInt row \<or> l @ '' '' = row_text ?toInt row)
                       \<and> length l < maxTokenSize) (map (row_text ?toInt) (data pbm)) (data pbm)"
      using rows by (simp add: list_all2_map1 list_all2_same)
    from True have p: "0 < ?w" "0 < ?h" by simp_all
    have "readPBM 1 False (\<lambda>pixel. pixel = 1) (\<lambda>bit. bit)
           (''P1'' @ [CHR 0x0A] @ FormatInt ?w @ '' '' @ FormatInt ?h @ [CHR 0x0A]
              @ concat (map (\<lambda>l. l @ [CHR 0x0A]) (map (row_text ?toInt) (data pbm))) @ [])
         = Ok \<lparr>data = data pbm, width = ?w, height = ?h, magicNumber = ''P1''\<rparr>"
      by (rule read_P1 [OF i p md rect la c])
    moreover have "\<lparr>data = data pbm, width = ?w, height = ?h, magicNumber = ''P1''\<rparr> = pbm"
      using mg by (cases pbm) simp
    ultimately have "readPBM 1 False (\<lambda>pixel. pixel = 1) (\<lambda>bit. bit) (?hdr @ body_text ?toInt (data pbm)) = Ok pbm"
      by (simp add: mg body_text_def comp_def)
    with sv that show ?thesis by blast
  next
    case False
    with r have d: "data pbm = []" by (simp add: rectangular_def)
    from Save_rows_empty [OF False, of ?toInt ?hdr] obtain body where
      sv: "Save_rows ?toInt pbm ?hdr = Ok (?hdr @ body)" by blast
    have "readPBM 1 False (\<lambda>pixel. pixel = 1) (\<lambda>bit. bit)
           (''P1'' @ [CHR 0x0A] @ FormatInt ?w @ '' '' @ FormatInt ?h @ [CHR 0x0A] @ body)
         = Ok \<lparr>data = [], width = ?w, height = ?h, magicNumber = ''P1''\<rparr>"
      by (rule read_P1_empty [OF i False])
    moreover have "\<lparr>data = [], width = ?w, height = ?h, magicNumber = ''P1''\<rparr> = pbm"
      using mg d by (cases pbm) simp
    ultimately have "readPBM 1 False (\<lambda>pixel. pixel = 1) (\<lambda>bit. bit) (?hdr @ body) = Ok pbm"
      by (simp add: mg)
    with sv that show ?thesis by blast
  qed
  show ?thesis
  proof (cases "os_Create fs' out")
    case (Inl e)
    then have "PBM_Save pbm fs' space out = Ok (fs', Some e)" by (simp add: PBM_Save_def)
    then show ?thesis by simp
  next
    case (Inr fs1)
    obtain written e where f: "Flush space (?hdr @ body) = (written, e)" by (metis prod.exhaust)
    have s: "PBM_Save pbm fs' space out = Ok (fs1(out := File written), e)"
      using sv f by (simp add: PBM_Save_def Inr)
    have "written = ?hdr @ body" if "e = None"
      using f that by (auto simp: Flush_def Let_def split: if_splits)
    with rb have "e = None \<longrightarrow> ReadPBM (fs1(out := File written)) out = Ok pbm"
      by (simp add: ReadPBM_def os_Open_def)
    with s show ?thesis by blast
  qed
qed

lemma PGM_round_trip:
  assumes rd: "ReadPGM fs filename = Ok pgm" and mg: "magicNumber pgm = ''P2''"
    and rows: "\<forall>row\<in>set (data pgm). length (row_text uint row) < maxTokenSize"
  shows "\<exists>fs'' e. PGM_Save pgm fs' space out = Ok (fs'', e)
           \<and> (e = None \<longrightarrow> ReadPGM fs'' out = Ok pgm)"
proof -
  let ?w = "width pgm" and ?h = "height pgm" and ?m = "max_value pgm"
  let ?hdr = "magicNumber pgm @ ''\<newline>'' @ FormatInt ?w @ '' '' @ FormatInt ?h @ ''\<newline>''
                @ FormatInt ?m @ ''\<newline>''"
  note r = ReadPGM_rectangular [OF rd]
  from ReadPGM_facts [OF rd] have i: "- (2 ^ 63) \<le> ?w" "?w < 2 ^ 63" "- (2 ^ 63) \<le> ?h" "?h < 2 ^ 63"
    "- (2 ^ 63) \<le> ?m" "?m < 2 ^ 63"
    and al: "0 < ?w \<and> 0 < ?h \<longrightarrow> (\<exists>d0. make_data 1 ?h ?w (0::byte) = Ok d0)"
    by simp_all
  obtain body where sv: "Save_rows uint pgm ?hdr = Ok (?hdr @ body)"
    and rb: "\<And>fs2. os_Open fs2 out = Inr (?hdr @ body) \<Longrightarrow> ReadPGM fs2 out = Ok pgm"
  proof (cases "0 < ?w \<and> 0 < ?h")
    case True
    with r have rect: "rect ?h ?w (data pgm)" by (simp add: rectangular_def)
    from al True obtain d0 where md: "make_data 1 ?h ?w (0::byte) = Ok d0" by auto
    have sv: "Save_rows uint pgm ?hdr = Ok (?hdr @ body_text uint (data pgm))"
      using rect True by (intro Save_rows_rect) simp_all
    have la: "list_all2 (\<lambda>l row. (l = row_text uint row \<or> l @ '' '' = row_text uint row)
                       \<and> length l < maxTokenSize) (map (row_text uint) (data pgm)) (data pgm)"
      using rows by (simp add: list_all2_map1 list_all2_same)
    from True have p: "0 < ?w" "0 < ?h" by simp_all
    have e: "\<lparr>data = data pgm, width = ?w, height = ?h, magicNumber = ''P2'', max_value = ?m\<rparr> = pgm"
      using mg by (cases pgm) simp
    have "ReadPGM fs2 out = Ok pgm" if "os_Open fs2 out = Inr (?hdr @ body_text uint (data pgm))" for fs2
    proof -
      from that have o: "os_Open fs2 out =
          Inr (''P2'' @ [CHR 0x0A] @ FormatInt ?w @ '' '' @ FormatInt ?h @ [CHR 0x0A] @ FormatInt ?m @ [CHR 0x0A]
              @ concat (map (\<lambda>l. l @ [CHR 0x0A]) (map (row_text uint) (data pgm))) @ [])"
        by (simp add: mg body_text_def comp_def)
      from read_P2 [OF o i p md rect la] e show ?thesis by simp
    qed
    with sv that show ?thesis by blast
  next
    case False
    with r have d: "data pgm = []" by (simp add: rectangular_def)
    from Save_rows_empty [OF False, of uint ?hdr] obtain body where
      sv: "Save_rows uint pgm ?hdr = Ok (?hdr @ body)" by blast
    have e: "\<lparr>data = [], width = ?w, height = ?h, magicNumber = ''P2'', max_value = ?m\<rparr> = pgm"
      using mg d by (cases pgm) simp
    have "ReadPGM fs2 out = Ok pgm" if "os_Open fs2 out = Inr (?hdr @ body)" for fs2
    proof -
      from that have o: "os_Open fs2 out =
          Inr (''P2'' @ [CHR 0x0A] @ FormatInt ?w @ '' '' @ FormatInt ?h @ [CHR 0x0A] @ FormatInt ?m @ [CHR 0x0A]
              @ body)"
        by (simp add: mg)
      from read_P2_empty [OF o i False] e show ?thesis by simp
    qed
    with sv that show ?thesis by blast
  qed
  show ?thesis
  proof (cases "os_Create fs' out")
    case (Inl e)
    then have "PGM_Save pgm fs' space out = Ok (fs', Some e)" by (simp add: PGM_Save_def)
    then show ?thesis by simp
  next
    case (Inr fs1)
    obtain written e where f: "Flush space (?hdr @ body) = (written, e)" by (metis prod.exhaust)
    have s: "PGM_Save pgm fs' space out = Ok (fs1(out := File written), e)"
      using sv f by (simp add: PGM_Save_def Inr)
    have t: "written = ?hdr @ body" if "e = None"
      using f that by (auto simp: Flush_def Let_def split: if_splits)
    have "ReadPGM (fs1(out := File written)) out = Ok pgm" if "e = None"
      by (rule rb) (simp add: os_Open_def t [OF that])
    with s show ?thesis by blast
  qed
qed

lemma concat_replicate_Suc: "concat (replicate n s) @ s = concat (replicate (Suc n) s)"
  by (induction n) simp_all

lemma length_concat_replicate: "length (concat (replicate n s)) = n * length s"
  by (induction n) simp_all

lemma set_concat_replicate: "set (concat (replicate n s)) \<subseteq> set s"
  by (induction n) auto

lemma FormatInt_examples: "FormatInt 32768 = ''32768''" "FormatInt 1 = ''1''" "FormatInt 0 = ''0''"
  "FormatInt 2 = ''2''" "FormatInt 255 = ''255''" "FormatInt 7 = ''7''"
  by (simp_all add: FormatInt_def FormatUint.simps digitChar_def)

lemma row_text_bits: "length (row_text (\<lambda>b. if b then 1 else 0) row) = 2 * length row"
  by (induction row) (simp_all add: row_text_def FormatInt_examples)

lemma row_text_bytes: "length (row_text uint (row :: byte list)) \<le> 4 * length row"
proof (induction row)
  case Nil
  then show ?case by (simp add: row_text_def)
next
  case (Cons v row)
  have "uint v < 2 ^ LENGTH(8)" by (rule uint_lt2p)
  then have "uint v < 1000" by simp
  then have "nat (uint v) < 10 ^ 3" by (simp only: nat_less_iff [OF uint_nonnegative]) simp
  then have "length (FormatUint (nat (uint v))) \<le> 3" by (rule FormatUint_length) simp
  moreover have "0 \<le> uint v" by (rule uint_nonnegative)
  ultimately have "length (FormatInt (uint v)) \<le> 3" by (simp add: FormatInt_def)
  with Cons show ?case by (simp add: row_text_def)
qed

lemma Save_rows_no_width:
  assumes "\<not> 0 < width pbm" and "0 \<le> height pbm"
  shows "Save_rows toInt pbm out = Ok (out @ replicate (nat (height pbm)) (CHR 0x0A))"
proof -
  let ?d = "data pbm" and ?w = "width pbm" and ?h = "height pbm"
  let ?inner = "\<lambda>i out. bind (for_loop 0 ?w (\<lambda>j out. bind (load2 ?d i j) (\<lambda>v. Ok (out @ FormatInt (toInt v) @ '' ''))) out)
         (\<lambda>out. Ok (out @ [CHR 0x0A]))"
  have "\<exists>t. for_loop 0 ?h ?inner out = Ok t \<and> t = out @ replicate (nat ?h) (CHR 0x0A)"
  proof (rule for_loop_inv [where I = "\<lambda>k t. t = out @ replicate (nat k) (CHR 0x0A)"])
    show "out = out @ replicate (nat 0) (CHR 0x0A)" by simp
    show "0 \<le> ?h" by (rule assms(2))
    fix k t
    assume k: "0 \<le> k" and t: "t = out @ replicate (nat k) (CHR 0x0A)"
    have "nat (k + 1) = Suc (nat k)" using k by simp
    then have "out @ replicate (nat (k + 1)) (CHR 0x0A) = t @ [CHR 0x0A]"
      by (simp add: t replicate_append_same)
    moreover have "?inner k t = Ok (t @ [CHR 0x0A])" by (simp add: for_loop_done [OF assms(1)])
    ultimately show "\<exists>t'. ?inner k t = Ok t' \<and> t' = out @ replicate (nat (k + 1)) (CHR 0x0A)" by simp
  qed
  then show ?thesis by (simp add: Save_rows_def)
qed

text \<open>An image without rows may have any height: \<open>Save\<close> writes a newline for each of its
  rows, and for the height \<open>2^63 - 1\<close> no file takes them.\<close>

lemma tall_image_not_saved:
  "ReadPBM (disk ''P1\<newline>0 9223372036854775807\<newline>'') ''image''
     = Ok \<lparr>data = [], width = 0, height = 9223372036854775807, magicNumber = ''P1''\<rparr>
   \<and> (\<exists>fs'. PBM_Save \<lparr>data = [], width = 0, height = 9223372036854775807, magicNumber = ''P1''\<rparr>
               (disk []) space ''copy'' = Ok (fs', Some ErrNoSpace))"
proof
  show "ReadPBM (disk ''P1\<newline>0 9223372036854775807\<newline>'') ''image''
     = Ok \<lparr>data = [], width = 0, height = 9223372036854775807, magicNumber = ''P1''\<rparr>"
    by (simp add: reader_eval)
  let ?G = "\<lparr>data = [], width = 0, height = 9223372036854775807, magicNumber = ''P1''\<rparr> :: bool PBM"
  let ?hdr = "magicNumber ?G @ ''\<newline>'' @ FormatInt (width ?G) @ '' '' @ FormatInt (height ?G) @ ''\<newline>''"
  let ?out = "?hdr @ replicate (nat (height ?G)) (CHR 0x0A)"
  have s: "Save_rows (\<lambda>b. if b then 1 else 0) ?G ?hdr = Ok ?out"
    by (rule Save_rows_no_width) simp_all
  have "maxFileSize < length ?out" by (simp add: maxFileSize_def)
  then have "\<not> length ?out \<le> min space maxFileSize" by simp
  then have "snd (Flush space ?out) = Some ErrNoSpace" by (simp add: Flush_def Let_def)
  then obtain written where "Flush space ?out = (written, Some ErrNoSpace)" by (metis prod.collapse)
  with s show "\<exists>fs'. PBM_Save ?G (disk []) space ''copy'' = Ok (fs', Some ErrNoSpace)"
    by (simp add: PBM_Save_def os_Create_def disk_def)
qed

text \<open>
  Claim C4 says that every grid decoded from a well-formed P1 or P2 file is read back
  from what \<open>Save\<close> writes. It is not when a row is wide. \<open>Save\<close> puts a whole row on one
  line, with a blank after every pixel, and the readers take a line from a
  \<open>bufio.Scanner\<close>, whose buffer holds at most 65536 bytes. A P1 file of one row of 32768
  pixels, blanks between them, has a line of 65535 bytes and is decoded; the line \<open>Save\<close>
  writes for this grid has 65536 bytes, and decoding it returns \<open>bufio.ErrTooLong\<close>. (The
  file takes a million bytes here.)
\<close>

theorem wide_row_not_read_back:
  "ReadPBM (disk (''P1\<newline>32768 1\<newline>'' @ concat (replicate 32767 ''1 '') @ ''1\<newline>'')) ''image''
     = Ok \<lparr>data = [replicate 32768 True], width = 32768, height = 1, magicNumber = ''P1''\<rparr>
   \<and> PBM_Save \<lparr>data = [replicate 32768 True], width = 32768, height = 1, magicNumber = ''P1''\<rparr>
        (disk []) 1000000 ''image''
     = Ok (disk (''P1\<newline>32768 1\<newline>'' @ concat (replicate 32768 ''1 '') @ ''\<newline>''), None)
   \<and> ReadPBM (disk (''P1\<newline>32768 1\<newline>'' @ concat (replicate 32768 ''1 '') @ ''\<newline>'')) ''image''
     = Err ErrTooLong"
proof (intro conjI)
  let ?toInt = "\<lambda>b::bool. if b then 1 else (0::int)"
  let ?G = "\<lparr>data = [replicate 32768 True], width = 32768, height = 1, magicNumber = ''P1''\<rparr>"
  let ?l = "concat (replicate 32767 ''1 '') @ ''1''"
  have i: "- (2 ^ 63) \<le> (32768::int)" "(32768::int) < 2 ^ 63" "- (2 ^ 63) \<le> (1::int)" "(1::int) < 2 ^ 63"
    "0 < (32768::int)" "0 < (1::int)"
    by simp_all
  have md: "make_data 1 1 32768 False = Ok (replicate (nat 1) (replicate (nat 32768) False))"
    by (simp add: make_data_def maxAlloc_def)
  have rt: "row_text ?toInt (replicate 32768 True) = concat (replicate 32768 ''1 '')"
    by (simp add: row_text_def FormatInt_examples)
  have s: "(32768::nat) = Suc 32767" by simp
  have l: "?l @ '' '' = row_text ?toInt (replicate 32768 True)"
    unfolding rt by (subst s, subst concat_replicate_Suc [symmetric]) simp
  have len: "length ?l < maxTokenSize" by (simp add: length_concat_replicate maxTokenSize_def)
  have rect: "rect 1 32768 [replicate 32768 True]" by (simp add: rect_def)
  have la: "list_all2 (\<lambda>l row. (l = row_text ?toInt row \<or> l @ '' '' = row_text ?toInt row)
                       \<and> length l < maxTokenSize) [?l] [replicate 32768 True]"
    using l len by simp
  have c: "((?toInt v) = 1) = v \<and> - (2 ^ 63) \<le> ?toInt v \<and> ?toInt v < 2 ^ 63" for v by simp
  from read_P1 [OF i md rect la c, of "\<lambda>bit. bit" "[]"]
  show "ReadPBM (disk (''P1\<newline>32768 1\<newline>'' @ concat (replicate 32767 ''1 '') @ ''1\<newline>'')) ''image'' = Ok ?G"
    by (simp add: ReadPBM_def os_Open_def disk_def FormatInt_examples)
  have "Save_rows ?toInt ?G ''P1\<newline>32768 1\<newline>'' = Ok (''P1\<newline>32768 1\<newline>'' @ body_text ?toInt (data ?G))"
    using rect by (intro Save_rows_rect) simp_all
  moreover have "Flush 1000000 (''P1\<newline>32768 1\<newline>'' @ concat (replicate 32768 ''1 '') @ ''\<newline>'')
      = (''P1\<newline>32768 1\<newline>'' @ concat (replicate 32768 ''1 '') @ ''\<newline>'', None)"
    by (simp add: Flush_def maxFileSize_def length_concat_replicate)
  ultimately show "PBM_Save ?G (disk []) 1000000 ''image''
      = Ok (disk (''P1\<newline>32768 1\<newline>'' @ concat (replicate 32768 ''1 '') @ ''\<newline>''), None)"
    by (simp add: PBM_Save_def os_Create_def disk_def FormatInt_examples body_text_def rt)
  have nl: "CHR 0x0A \<notin> set (concat (replicate 32768 ''1 ''))"
    using set_concat_replicate [of 32768 "''1 ''"] by auto
  have long: "maxTokenSize \<le> length (concat (replicate 32768 ''1 ''))"
    by (simp add: length_concat_replicate maxTokenSize_def)
  from read_P1_too_long [OF i md nl long, of "\<lambda>pixel. pixel = 1" "\<lambda>bit. bit" "[]"]
  show "ReadPBM (disk (''P1\<newline>32768 1\<newline>'' @ concat (replicate 32768 ''1 '') @ ''\<newline>'')) ''image''
      = Err ErrTooLong"
    by (simp add: ReadPBM_def os_Open_def disk_def FormatInt_examples)
qed

text \<open>
  Claim C4 as amended. Let a grid be decoded from a file with magic number P1 (by
  \<open>ReadPBM\<close>) or P2 (by \<open>ReadPGM\<close>), and let every line that \<open>Save\<close> writes for a row of it
  be shorter than 65536 bytes (for P1, a width below 32768; for P2, one below 16384
  suffices). Then \<open>Save\<close> returns, and whenever the error it returns is nil (the file was
  created and took the whole text), decoding the file it wrote yields the same grid: the
  same width and height, the same pixels, the same magic number and, for greyscale, the
  same max value.
\<close>

theorem ascii_round_trip:
  "(ReadPBM fs filename = Ok pbm \<and> magicNumber pbm = ''P1''
      \<and> (\<forall>row\<in>set (data pbm). length (row_text (\<lambda>b. if b then 1 else 0) row) < maxTokenSize)
    \<longrightarrow> (\<exists>fs'' e. PBM_Save pbm fs' space out = Ok (fs'', e)
           \<and> (e = None \<longrightarrow> ReadPBM fs'' out = Ok pbm)))
   \<and> (ReadPGM fs filename = Ok pgm \<and> magicNumber pgm = ''P2''
      \<and> (\<forall>row\<in>set (data pgm). length (row_text uint row) < maxTokenSize)
    \<longrightarrow> (\<exists>fs'' e. PGM_Save pgm fs' space out = Ok (fs'', e)
           \<and> (e = None \<longrightarrow> ReadPGM fs'' out = Ok pgm)))"
proof (intro conjI impI)
  assume "ReadPBM fs filename = Ok pbm \<and> magicNumber pbm = ''P1''
      \<and> (\<forall>row\<in>set (data pbm). length (row_text (\<lambda>b. if b then 1 else 0) row) < maxTokenSize)"
  then show "\<exists>fs'' e. PBM_Save pbm fs' space out = Ok (fs'', e)
           \<and> (e = None \<longrightarrow> ReadPBM fs'' out = Ok pbm)"
    by (intro PBM_round_trip [of fs filename pbm fs' space out]) simp_all
next
  assume "ReadPGM fs filename = Ok pgm \<and> magicNumber pgm = ''P2''
      \<and> (\<forall>row\<in>set (data pgm). length (row_text uint row) < maxTokenSize)"
  then show "\<exists>fs'' e. PGM_Save pgm fs' space out = Ok (fs'', e)
           \<and> (e = None \<longrightarrow> ReadPGM fs'' out = Ok pgm)"
    by (intro PGM_round_trip [of fs filename pgm fs' space out]) simp_all
qed

theorem ascii_round_trip_witness:
  "PBM_Save \<lparr>data = [[True, False], [False, True]], width = 2, height = 2, magicNumber = ''P1''\<rparr>
      (disk ''P1\<newline>2 2\<newline>1 0\<newline>0 1\<newline>'') 4096 ''copy''
     = Ok ((disk ''P1\<newline>2 2\<newline>1 0\<newline>0 1\<newline>'') (''copy'' := File ''P1\<newline>2 2\<newline>1 0 \<newline>0 1 \<newline>''), None)
   \<and> ReadPBM ((disk ''P1\<newline>2 2\<newline>1 0\<newline>0 1\<newline>'') (''copy'' := File ''P1\<newline>2 2\<newline>1 0 \<newline>0 1 \<newline>'')) ''copy''
     = Ok \<lparr>data = [[True, False], [False, True]], width = 2, height = 2, magicNumber = ''P1''\<rparr>
   \<and> PGM_Save \<lparr>data = [[7, 255]], width = 2, height = 1, magicNumber = ''P2'', max_value = 255\<rparr>
      (disk ''P2\<newline>2 1\<newline>255\<newline>7 255\<newline>'') 4096 ''copy''
     = Ok ((disk ''P2\<newline>2 1\<newline>255\<newline>7 255\<newline>'') (''copy'' := File ''P2\<newline>2 1\<newline>255\<newline>7 255 \<newline>''), None)
   \<and> ReadPGM ((disk ''P2\<newline>2 1\<newline>255\<newline>7 255\<newline>'') (''copy'' := File ''P2\<newline>2 1\<newline>255\<newline>7 255 \<newline>'')) ''copy''
     = Ok \<lparr>data = [[7, 255]], width = 2, height = 1, magicNumber = ''P2'', max_value = 255\<rparr>"
proof -
  let ?c = "''P1\<newline>2 2\<newline>1 0\<newline>0 1\<newline>''"
  let ?G = "\<lparr>data = [[True, False], [False, True]], width = 2, height = 2, magicNumber = ''P1''\<rparr>"
  let ?F = "(disk ?c) (''copy'' := File ''P1\<newline>2 2\<newline>1 0 \<newline>0 1 \<newline>'')"
  have r: "ReadPBM (disk ?c) ''image'' = Ok ?G" by (simp add: reader_eval) (simp add: numeral_2_eq_2)
  have m: "magicNumber ?G = ''P1''" by simp
  have l: "\<forall>row\<in>set (data ?G). length (row_text (\<lambda>b. if b then 1 else 0) row) < maxTokenSize"
    by (simp add: row_text_def FormatInt_examples maxTokenSize_def)
  have s: "PBM_Save ?G (disk ?c) 4096 ''copy'' = Ok (?F, None)"
    by (simp add: PBM_Save_def Save_rows_def os_Create_def disk_def loop_eval FormatInt_examples
        Flush_def maxFileSize_def)
  from ascii_round_trip [of "disk ?c" "''image''" ?G "disk ?c" 4096 "''copy''",
      THEN conjunct1, rule_format, OF conjI [OF r conjI [OF m l]]]
  have b: "ReadPBM ?F ''copy'' = Ok ?G" by (simp add: s)
  let ?c2 = "''P2\<newline>2 1\<newline>255\<newline>7 255\<newline>''"
  let ?G2 = "\<lparr>data = [[7::byte, 255]], width = 2, height = 1, magicNumber = ''P2'', max_value = 255\<rparr>"
  let ?F2 = "(disk ?c2) (''copy'' := File ''P2\<newline>2 1\<newline>255\<newline>7 255 \<newline>'')"
  have r2: "ReadPGM (disk ?c2) ''image'' = Ok ?G2" by (simp add: reader_eval) (simp add: numeral_2_eq_2)
  have m2: "magicNumber ?G2 = ''P2''" by simp
  have l2: "\<forall>row\<in>set (data ?G2). length (row_text uint row) < maxTokenSize"
    by (simp add: row_text_def FormatInt_examples maxTokenSize_def)
  have s2: "PGM_Save ?G2 (disk ?c2) 4096 ''copy'' = Ok (?F2, None)"
    by (simp add: PGM_Save_def Save_rows_def os_Create_def disk_def loop_eval FormatInt_examples
        Flush_def maxFileSize_def)
  from ascii_round_trip [of "disk ?c2" "''image''" _ "disk ?c2" 4096 "''copy''" ?G2,
      THEN conjunct2, rule_format, OF conjI [OF r2 conjI [OF m2 l2]]]
  have b2: "ReadPGM ?F2 ''copy'' = Ok ?G2" by (simp add: s2)
  from s b s2 b2 show ?thesis by simp
qed

subsection \<open>Short rows\<close>

lemma Fields_spaced:
  "list_all (\<lambda>t. t \<noteq> [] \<and> list_all plain t) toks \<Longrightarrow> Fields (spaced toks) = toks"
  using FieldsFrom_spaced [of toks "[]"] by (simp add: Fields_def)

text \<open>
  Claim C8 says that a decode with a short pixel row succeeds whenever all tokens parse.
  By the design of the readers it does not when the row stands on a long line: they take
  the pixel lines from a \<open>bufio.Scanner\<close>, whose buffer holds at most 65536 bytes. The one
  row of this P1 image of width 40000 has 32768 tokens \<open>1\<close>, each followed by a blank; all
  of them parse, and \<open>ReadPBM\<close> returns \<open>bufio.ErrTooLong\<close>.
\<close>

theorem short_row_on_long_line:
  "Fields (concat (replicate 32768 ''1 '')) = replicate 32768 ''1''
   \<and> Atoi ''1'' = (1, None)
   \<and> ReadPBM (disk (''P1\<newline>40000 1\<newline>'' @ concat (replicate 32768 ''1 '') @ ''\<newline>'')) ''image''
     = Err ErrTooLong"
proof (intro conjI)
  have "list_all (\<lambda>t. t \<noteq> [] \<and> list_all plain t) (replicate 32768 ''1'')"
    by (simp add: list_all_iff plain_def isDigit_def)
  from Fields_spaced [OF this]
  show "Fields (concat (replicate 32768 ''1 '')) = replicate 32768 ''1''" by (simp add: spaced_def)
  show "Atoi ''1'' = (1, None)" by (simp add: text_eval)
  have i: "- (2 ^ 63) \<le> (40000::int)" "(40000::int) < 2 ^ 63" "- (2 ^ 63) \<le> (1::int)" "(1::int) < 2 ^ 63"
    "0 < (40000::int)" "0 < (1::int)"
    by simp_all
  have md: "make_data 1 1 40000 False = Ok (replicate (nat 1) (replicate (nat 40000) False))"
    by (simp add: make_data_def maxAlloc_def)
  have nl: "CHR 0x0A \<notin> set (concat (replicate 32768 ''1 ''))"
    using set_concat_replicate [of 32768 "''1 ''"] by auto
  have long: "maxTokenSize \<le> length (concat (replicate 32768 ''1 ''))"
    by (simp add: length_concat_replicate maxTokenSize_def)
  have f: "FormatInt 40000 = ''40000''" by (simp add: FormatInt_def FormatUint.simps digitChar_def)
  from read_P1_too_long [OF i md nl long, of "\<lambda>pixel. pixel = 1" "\<lambda>bit. bit" "[]"]
  show "ReadPBM (disk (''P1\<newline>40000 1\<newline>'' @ concat (replicate 32768 ''1 '') @ ''\<newline>'')) ''image''
      = Err ErrTooLong"
    by (simp add: ReadPBM_def os_Open_def disk_def FormatInt_examples f)
qed

text \<open>
  Claim C8 as amended. Take an ASCII decode that gets to the pixel lines: the file opens,
  the reader has read the line of the magic number (P1 or P2), a dimension line of two
  tokens that give a positive width and height and, for P2, a line of the maximum that
  parses, and the image is within the allocation bound. Let all \<open>height\<close> pixel lines be
  there and be read, the scanner reporting no error (it reports one for a line of 64 KiB
  or more; \<open>readNextLine\<close> returns the empty line only when no line is left), let every
  line have at most \<open>width\<close> tokens, and let all tokens parse. Then the reader succeeds; row
  \<open>i\<close> holds the pixels of the tokens of line \<open>i\<close>, and beyond them the zero value: \<open>false\<close>
  for the bitmap, 0 for the variant with \<open>int\<close> pixels and for greyscale. Nothing is said
  here of a line with more tokens than the width, nor of a body with fewer lines than
  the height.
\<close>

theorem short_rows_zero_filled:
  assumes "os_Open fs filename = Inr file"
    and "readNextLine (NewScanner file) = (magic, None, sc1)"
    and "readNextLine sc1 = (dimensions, None, sc2)"
    and "Fields dimensions = [a, b]" and "fst (Atoi a) = w" and "fst (Atoi b) = h"
    and "0 < w" and "0 < h" and "h * 24 \<le> maxAlloc" and "h * w \<le> maxAlloc"
  shows "(magic = ''P1'' \<longrightarrow>
           (\<forall>ls sc'. read_lines (nat h) sc2 = Some (ls, sc') \<longrightarrow> [] \<notin> set ls \<longrightarrow> rows_fit (nat w) ls \<longrightarrow>
              ReadPBM fs filename =
                Ok \<lparr>data = map (ascii_pixels (\<lambda>pixel. pixel = 1) (nat w) False) ls,
                    width = w, height = h, magicNumber = ''P1''\<rparr>
              \<and> (h * w * 8 \<le> maxAlloc \<longrightarrow>
                  ReadPBM_int fs filename =
                    Ok \<lparr>data = map (ascii_pixels (\<lambda>pixel. pixel) (nat w) 0) ls,
                        width = w, height = h, magicNumber = ''P1''\<rparr>)))
       \<and> (magic = ''P2'' \<longrightarrow>
           (\<forall>maxValueStr m sc3 ls sc'.
              readNextLine sc2 = (maxValueStr, None, sc3) \<longrightarrow> Atoi maxValueStr = (m, None) \<longrightarrow>
              read_lines (nat h) sc3 = Some (ls, sc') \<longrightarrow> [] \<notin> set ls \<longrightarrow> rows_fit (nat w) ls \<longrightarrow>
              ReadPGM fs filename =
                Ok \<lparr>data = map (ascii_pixels word_of_int (nat w) 0) ls,
                    width = w, height = h, magicNumber = ''P2'', max_value = m\<rparr>))
       \<and> (\<forall>conv z line j. length (Fields line) \<le> j \<longrightarrow> j < nat w \<longrightarrow>
             ascii_pixels conv (nat w) z line ! j = z)"
proof (intro conjI impI allI)
  fix ls sc'
  assume m: "magic = ''P1''" and rl: "read_lines (nat h) sc2 = Some (ls, sc')" and fit: "rows_fit (nat w) ls"
  have md: "make_data 1 h w False = Ok (replicate (nat h) (replicate (nat w) False))"
    using assms by (intro make_data_Ok) simp_all
  note b = ascii_body_Ok [OF \<open>0 < h\<close> rl fit, of "\<lambda>pixel. pixel = 1" False]
  from assms(1-8) m md b show "ReadPBM fs filename =
      Ok \<lparr>data = map (ascii_pixels (\<lambda>pixel. pixel = 1) (nat w) False) ls,
          width = w, height = h, magicNumber = ''P1''\<rparr>"
    by (simp add: ReadPBM_def readPBM_def)
  assume big: "h * w * 8 \<le> maxAlloc"
  have md8: "make_data 8 h w (0::int) = Ok (replicate (nat h) (replicate (nat w) 0))"
    using assms big by (intro make_data_Ok) simp_all
  note b8 = ascii_body_Ok [OF \<open>0 < h\<close> rl fit, of "\<lambda>pixel. pixel" "0::int"]
  from assms(1-8) m md8 b8 show "ReadPBM_int fs filename =
      Ok \<lparr>data = map (ascii_pixels (\<lambda>pixel. pixel) (nat w) 0) ls,
          width = w, height = h, magicNumber = ''P1''\<rparr>"
    by (simp add: ReadPBM_int_def readPBM_def)
next
  fix maxValueStr m sc3 ls sc'
  assume m: "magic = ''P2''" and l3: "readNextLine sc2 = (maxValueStr, None, sc3)"
    and mx: "Atoi maxValueStr = (m, None)"
    and rl: "read_lines (nat h) sc3 = Some (ls, sc')" and fit: "rows_fit (nat w) ls"
  have md: "make_data 1 h w (0::byte) = Ok (replicate (nat h) (replicate (nat w) 0))"
    using assms by (intro make_data_Ok) simp_all
  note b = ascii_body_Ok [OF \<open>0 < h\<close> rl fit, of word_of_int "0::byte"]
  from assms(1-8) m l3 mx md b show "ReadPGM fs filename =
      Ok \<lparr>data = map (ascii_pixels word_of_int (nat w) 0) ls,
          width = w, height = h, magicNumber = ''P2'', max_value = m\<rparr>"
    by (simp add: ReadPGM_def)
next
  fix conv :: "int \<Rightarrow> 'a" and z line j
  assume "length (Fields line) \<le> j" "j < nat w"
  then show "ascii_pixels conv (nat w) z line ! j = z" by (rule ascii_pixels_zero)
qed

theorem short_rows_zero_filled_witness:
  "ReadPGM (disk ''P2\<newline>3 2\<newline>255\<newline>7\<newline>8 9\<newline>'') ''image''
     = Ok \<lparr>data = [[7, 0, 0], [8, 9, 0]], width = 3, height = 2, magicNumber = ''P2'', max_value = 255\<rparr>"
proof -
  let ?c = "''P2\<newline>3 2\<newline>255\<newline>7\<newline>8 9\<newline>''"
  let ?sc1 = "\<lparr>src = [], buf = ''3 2\<newline>255\<newline>7\<newline>8 9\<newline>'', start = 3, cap = 4096, err = None\<rparr>"
  let ?sc2 = "\<lparr>src = [], buf = ''255\<newline>7\<newline>8 9\<newline>'', start = 7, cap = 4096, err = None\<rparr>"
  let ?sc3 = "\<lparr>src = [], buf = ''7\<newline>8 9\<newline>'', start = 11, cap = 4096, err = None\<rparr>"
  let ?sc4 = "\<lparr>src = [], buf = ''8 9\<newline>'', start = 13, cap = 4096, err = None\<rparr>"
  let ?sc5 = "\<lparr>src = [], buf = [], start = 17, cap = 4096, err = None\<rparr>"
  have o: "os_Open (disk ?c) ''image'' = Inr ?c" by (simp add: os_Open_def disk_def)
  have l1: "readNextLine (NewScanner ?c) = (''P2'', None, ?sc1)" by (simp add: scan_eval text_eval)
  have l2: "readNextLine ?sc1 = (''3 2'', None, ?sc2)" by (simp add: scan_eval text_eval)
  have l3: "readNextLine ?sc2 = (''255'', None, ?sc3)" by (simp add: scan_eval text_eval)
  have l4: "readNextLine ?sc3 = (''7'', None, ?sc4)" by (simp add: scan_eval text_eval)
  have l5: "readNextLine ?sc4 = (''8 9'', None, ?sc5)" by (simp add: scan_eval text_eval)
  have rl: "read_lines (nat 2) ?sc3 = Some ([''7'', ''8 9''], ?sc5)"
    by (simp add: numeral_2_eq_2 l4 l5)
  have f: "Fields ''3 2'' = [''3'', ''2'']" "Fields ''7'' = [''7'']" "Fields ''8 9'' = [''8'', ''9'']"
    by (simp_all add: text_eval)
  have a: "Atoi ''3'' = (3, None)" "Atoi ''2'' = (2, None)" "Atoi ''255'' = (255, None)"
    "Atoi ''7'' = (7, None)" "Atoi ''8'' = (8, None)" "Atoi ''9'' = (9, None)"
    by (simp_all add: text_eval)
  have fit: "rows_fit (nat 3) [''7'', ''8 9'']" by (simp add: rows_fit_def f a)
  have ne: "[] \<notin> set [''7'', ''8 9'']" by simp
  have d: "fst (Atoi ''3'') = 3" "fst (Atoi ''2'') = 2" by (simp_all add: a)
  have al: "(2::int) * 24 \<le> maxAlloc" "(2::int) * 3 \<le> maxAlloc" by (simp_all add: maxAlloc_def)
  note t = short_rows_zero_filled [OF o l1 l2 f(1) d _ _ al]
  have "ReadPGM (disk ?c) ''image'' =
      Ok \<lparr>data = map (ascii_pixels word_of_int (nat 3) 0) [''7'', ''8 9''],
          width = 3, height = 2, magicNumber = ''P2'', max_value = 255\<rparr>"
    by (rule t [THEN conjunct2, THEN conjunct1, rule_format, OF _ _ refl l3 a(3) rl ne fit]) simp_all
  then show ?thesis by (simp add: ascii_pixels_def f a eval_nat_numeral)
qed

end
